theory Spec2Isabelle
  imports Main
begin

section \<open>Data model\<close>

text \<open>
  A \<^verbatim>\<open>*Page\<close> is an address into a store of pages (\<open>heap\<close>, a list indexed by
  address; \<^verbatim>\<open>&Page{...}\<close> appends to it). A nil pointer is \<open>None\<close>. Go has no dangling
  pointers, so every address the crawler hands out is below the length of the store.
\<close>

type_synonym addr = nat

record Link =
  Page :: "addr option"
  CyclicPage :: bool

record Page =
  URL :: string
  Fail :: bool
  Links :: "Link list"
  StaticAssets :: "string list"

text \<open>
  The node tree of \<^verbatim>\<open>golang.org/x/net/html\<close>: the node's type, its tag name
  (\<open>Data\<close>), its attributes in source order, and its children in document order
  (\<^verbatim>\<open>FirstChild\<close>, then \<^verbatim>\<open>NextSibling\<close> until nil).
\<close>

datatype NodeType =
  ErrorNode | TextNode | DocumentNode | ElementNode | CommentNode | DoctypeNode

record Attribute =
  Key :: string
  Val :: string

datatype Node = Node (Type: NodeType) (Data: string) (Attr: "Attribute list") (Children: "Node list")

text \<open>
  The crawler struct (\<open>domain\<close>, \<open>wg\<close>, \<open>visitedPages\<close>, and \<open>visitedPagesLock\<close>:
  true while some goroutine holds the mutex) together with what the
  goroutines share besides it: the page store, the package-level semaphore \<open>sem\<close>, the
  goroutines started by \<^verbatim>\<open>go crawlPage(c, p)\<close> that have not run yet (each named by the
  page it was given), and a log of the calls made to the fetcher (the page of the
  calling task, and the URL passed to \<^verbatim>\<open>Fetch\<close>).
\<close>

record crawler =
  domain :: string
  wg :: nat
  visitedPages :: "string \<rightharpoonup> addr"
  visitedPagesLock :: bool
  heap :: "Page list"
  sem :: nat
  goroutines :: "addr list"
  fetched :: "(addr \<times> string) list"

text \<open>
  The two collaborators. \<^verbatim>\<open>Fetcher.Fetch\<close> is an interface method (in production an
  HTTP GET), so what it returns for a URL may change from one call to the next: the
  model passes it the number of calls made before. \<open>None\<close> is a non-nil error.
  \<^verbatim>\<open>html.Parse\<close> is a function of the content read.
\<close>

type_synonym Fetcher = "nat \<Rightarrow> string \<Rightarrow> string option"
type_synonym Parser = "string \<Rightarrow> Node option"

definition maxOutstanding :: nat where
  "maxOutstanding = 256"

section \<open>Library functions of package strings\<close>

text \<open>
  Strings are byte strings, as in Go. \<^verbatim>\<open>strings.HasPrefix\<close> and \<^verbatim>\<open>strings.HasSuffix\<close>
  compare bytes.
\<close>

definition HasPrefix :: "string \<Rightarrow> string \<Rightarrow> bool" where
  "HasPrefix s pre = (length pre \<le> length s \<and> take (length pre) s = pre)"

definition HasSuffix :: "string \<Rightarrow> string \<Rightarrow> bool" where
  "HasSuffix s suf = (length suf \<le> length s \<and> drop (length s - length suf) s = suf)"

text \<open>
  \<^verbatim>\<open>strings.TrimSpace\<close> removes the leading and the trailing white space, where white
  space is what \<^verbatim>\<open>unicode.IsSpace\<close> accepts: U+0009 to U+000D, U+0020, U+0085, U+00A0,
  U+1680, U+2000 to U+200A, U+2028, U+2029, U+202F, U+205F and U+3000. The string is
  read rune by rune as UTF-8. \<^verbatim>\<open>utf8.DecodeRuneInString\<close> yields one of these code points
  exactly when the string starts with its UTF-8 encoding, and
  \<^verbatim>\<open>utf8.DecodeLastRuneInString\<close> exactly when the string ends with it (a truncated,
  overlong or otherwise invalid sequence decodes to U+FFFD, one byte wide, which is
  not white space). \<open>whiteSpace\<close> lists the encodings; no one of them is a prefix or a
  suffix of another.
\<close>

definition whiteSpace :: "string list" where
  "whiteSpace =
     [[CHR 0x09], [CHR 0x0A], [CHR 0x0B], [CHR 0x0C], [CHR 0x0D], [CHR 0x20],
      [CHR 0xC2, CHR 0x85], [CHR 0xC2, CHR 0xA0],
      [CHR 0xE1, CHR 0x9A, CHR 0x80],
      [CHR 0xE2, CHR 0x80, CHR 0x80], [CHR 0xE2, CHR 0x80, CHR 0x81],
      [CHR 0xE2, CHR 0x80, CHR 0x82], [CHR 0xE2, CHR 0x80, CHR 0x83],
      [CHR 0xE2, CHR 0x80, CHR 0x84], [CHR 0xE2, CHR 0x80, CHR 0x85],
      [CHR 0xE2, CHR 0x80, CHR 0x86], [CHR 0xE2, CHR 0x80, CHR 0x87],
      [CHR 0xE2, CHR 0x80, CHR 0x88], [CHR 0xE2, CHR 0x80, CHR 0x89],
      [CHR 0xE2, CHR 0x80, CHR 0x8A],
      [CHR 0xE2, CHR 0x80, CHR 0xA8], [CHR 0xE2, CHR 0x80, CHR 0xA9],
      [CHR 0xE2, CHR 0x80, CHR 0xAF],
      [CHR 0xE2, CHR 0x81, CHR 0x9F],
      [CHR 0xE3, CHR 0x80, CHR 0x80]]"

text \<open>The width in bytes of the white-space rune at the front (at the back) of a string;
  0 when the first (the last) rune is not white space or the string is empty.\<close>

definition frontSpace :: "string \<Rightarrow> nat" where
  "frontSpace s = (case find (\<lambda>w. HasPrefix s w) whiteSpace of None \<Rightarrow> 0 | Some w \<Rightarrow> length w)"

definition backSpace :: "string \<Rightarrow> nat" where
  "backSpace s = (case find (\<lambda>w. HasSuffix s w) whiteSpace of None \<Rightarrow> 0 | Some w \<Rightarrow> length w)"

text \<open>
  \<^verbatim>\<open>TrimLeftFunc(s, unicode.IsSpace)\<close> and \<^verbatim>\<open>TrimRightFunc(s, unicode.IsSpace)\<close>: the
  loops skip white-space runes from the front (from the back) and stop at the first
  rune that is not white space. Each round removes at least one byte, so the length of
  the string bounds the number of rounds.
\<close>

primrec trimLeftRounds :: "nat \<Rightarrow> string \<Rightarrow> string" where
  "trimLeftRounds 0 s = s"
| "trimLeftRounds (Suc n) s =
     (if frontSpace s = 0 then s else trimLeftRounds n (drop (frontSpace s) s))"

primrec trimRightRounds :: "nat \<Rightarrow> string \<Rightarrow> string" where
  "trimRightRounds 0 s = s"
| "trimRightRounds (Suc n) s =
     (if backSpace s = 0 then s else trimRightRounds n (take (length s - backSpace s) s))"

definition trimLeft :: "string \<Rightarrow> string" where
  "trimLeft s = trimLeftRounds (length s) s"

definition trimRight :: "string \<Rightarrow> string" where
  "trimRight s = trimRightRounds (length s) s"

text \<open>\<^verbatim>\<open>TrimSpace\<close> trims the front, then the back of what is left (its fast path for
  ASCII white space gives the same result).\<close>

definition TrimSpace :: "string \<Rightarrow> string" where
  "TrimSpace s = trimRight (trimLeft s)"

text \<open>What trimming is to achieve, in the specification's words: the value without its
  surrounding white space. \<open>onlySpace s\<close>: \<open>s\<close> consists of white-space runes only.\<close>

definition onlySpace :: "string \<Rightarrow> bool" where
  "onlySpace s \<longleftrightarrow> (\<exists>ws. set ws \<subseteq> set whiteSpace \<and> s = concat ws)"

section \<open>parseHTML\<close>

definition newPage :: "string \<Rightarrow> Page" where
  "newPage u = \<lparr>URL = u, Fail = False, Links = [], StaticAssets = []\<rparr>"

text \<open>\<^verbatim>\<open>page.Links = append(page.Links, link)\<close> and
  \<^verbatim>\<open>page.StaticAssets = append(page.StaticAssets, attr.Val)\<close>.\<close>

definition appendLink :: "addr \<Rightarrow> Link \<Rightarrow> crawler \<Rightarrow> crawler" where
  "appendLink page link c =
     c\<lparr>heap := (heap c)[page := (heap c ! page)\<lparr>Links := Links (heap c ! page) @ [link]\<rparr>]\<rparr>"

definition appendAsset :: "addr \<Rightarrow> string \<Rightarrow> crawler \<Rightarrow> crawler" where
  "appendAsset page v c =
     c\<lparr>heap := (heap c)[page := (heap c ! page)\<lparr>StaticAssets := StaticAssets (heap c ! page) @ [v]\<rparr>]\<rparr>"

text \<open>
  The section of \<^verbatim>\<open>parseHTML\<close> between \<^verbatim>\<open>visitedPagesLock.Lock()\<close> and
  \<^verbatim>\<open>Unlock()\<close>: it returns the local \<^verbatim>\<open>link\<close>, the flag \<^verbatim>\<open>ok\<close> and the crawler.
  When the URL is registered already, \<^verbatim>\<open>link.Page = page\<close> (the referring page) and
  \<^verbatim>\<open>link.CyclicPage = true\<close>; otherwise a new page is allocated and registered.
  Here the section runs without interruption, the mutex free before and after it; its
  statements are interleaved with those of a second goroutine further down.
\<close>

definition lookupOrCreate :: "crawler \<Rightarrow> addr \<Rightarrow> string \<Rightarrow> Link \<times> bool \<times> crawler" where
  "lookupOrCreate c page linkURL =
     (case visitedPages c linkURL of
        Some _ \<Rightarrow> (\<lparr>Page = Some page, CyclicPage = True\<rparr>, True, c)
      | None \<Rightarrow>
          (let p = length (heap c)
           in (\<lparr>Page = Some p, CyclicPage = False\<rparr>, False,
               c\<lparr>heap := heap c @ [newPage linkURL],
                 visitedPages := (visitedPages c)(linkURL \<mapsto> p)\<rparr>)))"

text \<open>
  The locked section followed by \<^verbatim>\<open>if !ok { append; c.wg.Add(1); go crawlPage(c, link.Page) }\<close>.
  (\<open>link.Page\<close> is never nil after the locked section.)
\<close>

definition registerLink :: "crawler \<Rightarrow> addr \<Rightarrow> string \<Rightarrow> crawler" where
  "registerLink c page linkURL =
     (case lookupOrCreate c page linkURL of
        (link, ok, c1) \<Rightarrow>
          if \<not> ok then
            (case Page link of
               None \<Rightarrow> c1
             | Some target \<Rightarrow>
                 (let c2 = appendLink page link c1;
                      c3 = c2\<lparr>wg := wg c2 + 1\<rparr>
                  in c3\<lparr>goroutines := goroutines c3 @ [target]\<rparr>))
          else c1)"

text \<open>The attribute loop of \<^verbatim>\<open>case "a"\<close>: \<^verbatim>\<open>continue\<close> on every key other than
  \<^verbatim>\<open>href\<close>, \<^verbatim>\<open>break\<close> after the first \<^verbatim>\<open>href\<close>.\<close>

fun anchorLoop :: "crawler \<Rightarrow> addr \<Rightarrow> Attribute list \<Rightarrow> crawler" where
  "anchorLoop c page [] = c"
| "anchorLoop c page (attr # rest) =
     (if Key attr \<noteq> ''href'' then anchorLoop c page rest
      else
        (let linkURL = TrimSpace (Val attr);
             linkURL = (if HasPrefix linkURL ''/'' then domain c @ linkURL else linkURL)
         in if HasPrefix linkURL (domain c) then registerLink c page linkURL else c))"

text \<open>The attribute loops of \<^verbatim>\<open>case "link"\<close> (key \<^verbatim>\<open>href\<close>) and
  \<^verbatim>\<open>case "img", "script"\<close> (key \<^verbatim>\<open>src\<close>).\<close>

fun assetLoop :: "string \<Rightarrow> crawler \<Rightarrow> addr \<Rightarrow> Attribute list \<Rightarrow> crawler" where
  "assetLoop k c page [] = c"
| "assetLoop k c page (attr # rest) =
     (if Key attr = k then assetLoop k (appendAsset page (Val attr) c) page rest
      else assetLoop k c page rest)"

text \<open>The \<^verbatim>\<open>if node.Type == html.ElementNode { switch node.Data { ... } }\<close> block.\<close>

definition classify :: "crawler \<Rightarrow> NodeType \<Rightarrow> string \<Rightarrow> Attribute list \<Rightarrow> addr \<Rightarrow> crawler" where
  "classify c ty tag attrs page =
     (if ty = ElementNode then
        (if tag = ''a'' then anchorLoop c page attrs
         else if tag = ''link'' then assetLoop ''href'' c page attrs
         else if tag = ''img'' \<or> tag = ''script'' then assetLoop ''src'' c page attrs
         else c)
      else c)"

fun parseHTML :: "crawler \<Rightarrow> Node \<Rightarrow> addr \<Rightarrow> crawler"
  and parseChildren :: "crawler \<Rightarrow> Node list \<Rightarrow> addr \<Rightarrow> crawler" where
  "parseHTML c (Node ty tag attrs kids) page = parseChildren (classify c ty tag attrs page) kids page"
| "parseChildren c [] page = c"
| "parseChildren c (child # rest) page = parseChildren (parseHTML c child page) rest page"

section \<open>crawlPage and Crawl\<close>

definition setFail :: "addr \<Rightarrow> crawler \<Rightarrow> crawler" where
  "setFail page c = c\<lparr>heap := (heap c)[page := (heap c ! page)\<lparr>Fail := True\<rparr>]\<rparr>"

text \<open>
  One run of \<^verbatim>\<open>crawlPage(c, page)\<close>: take a token from \<open>sem\<close>, call
  \<^verbatim>\<open>c.fetcher.Fetch(c.domain)\<close>, parse, walk the tree; the deferred function gives the
  token back and calls \<^verbatim>\<open>c.wg.Done()\<close> on every path.
\<close>

definition crawlPage :: "Fetcher \<Rightarrow> Parser \<Rightarrow> crawler \<Rightarrow> addr \<Rightarrow> crawler" where
  "crawlPage fetch parse c page =
     (let c1 = c\<lparr>sem := sem c - 1\<rparr>;
          r = fetch (length (fetched c1)) (domain c1);
          c2 = c1\<lparr>fetched := fetched c1 @ [(page, domain c1)]\<rparr>;
          c3 = (case r of
                  None \<Rightarrow> setFail page c2
                | Some content \<Rightarrow>
                    (case parse content of
                       None \<Rightarrow> setFail page c2
                     | Some root \<Rightarrow> parseHTML c2 root page))
      in c3\<lparr>sem := sem c3 + 1, wg := wg c3 - 1\<rparr>)"

text \<open>
  The goroutines run one at a time, each to its end: a step picks one of the started
  goroutines (number \<open>i\<close> among those waiting) and runs its \<open>crawlPage\<close>. A goroutine
  blocks on \<^verbatim>\<open><-sem\<close> while no token is left. A schedule is the list of picks.
\<close>

definition step :: "Fetcher \<Rightarrow> Parser \<Rightarrow> nat \<Rightarrow> crawler \<Rightarrow> crawler" where
  "step fetch parse i c =
     (if goroutines c = [] \<or> sem c = 0 then c
      else
        (let k = i mod length (goroutines c);
             page = goroutines c ! k
         in crawlPage fetch parse
              (c\<lparr>goroutines := take k (goroutines c) @ drop (Suc k) (goroutines c)\<rparr>) page))"

fun runTasks :: "Fetcher \<Rightarrow> Parser \<Rightarrow> nat list \<Rightarrow> crawler \<Rightarrow> crawler" where
  "runTasks fetch parse [] c = c"
| "runTasks fetch parse (i # sched) c = runTasks fetch parse sched (step fetch parse i c)"

definition initCrawler :: "string \<Rightarrow> crawler" where
  "initCrawler url =
     \<lparr>domain = url, wg = 1, visitedPages = [url \<mapsto> 0], visitedPagesLock = False, heap = [newPage url],
      sem = maxOutstanding, goroutines = [0], fetched = []\<rparr>"

text \<open>
  \<^verbatim>\<open>Crawl(url, fetcher)\<close>: \<^verbatim>\<open>c.wg.Wait()\<close> returns once the counter is zero; the
  result is the root pointer (address 0) and the store it points into. \<open>None\<close>: the
  schedule ended while \<open>Wait\<close> was still blocked.
\<close>

definition Crawl :: "Fetcher \<Rightarrow> Parser \<Rightarrow> nat list \<Rightarrow> string \<Rightarrow> (Page list \<times> addr) option" where
  "Crawl fetch parse sched url =
     (let c = runTasks fetch parse sched (initCrawler url)
      in if wg c = 0 then Some (heap c, 0) else None)"

section \<open>Page.String\<close>

text \<open>\<^verbatim>\<open>strings.Replace(s, "\\n", "\\n    ", -1)\<close>: every line feed is followed by four
  spaces.\<close>

definition indent :: "string \<Rightarrow> string" where
  "indent s = concat (map (\<lambda>ch. if ch = CHR 0x0A then ''\<newline>    '' else [ch]) s)"

text \<open>The first loop of \<^verbatim>\<open>String\<close>, over \<^verbatim>\<open>p.StaticAssets\<close>; \<open>acc\<close> is the local
  \<^verbatim>\<open>staticAssets\<close>.\<close>

fun assetsText :: "string \<Rightarrow> string list \<Rightarrow> string" where
  "assetsText acc [] = acc"
| "assetsText acc (staticAsset # rest) =
     assetsText ((if 0 < length acc then acc @ ''\<newline>'' else acc) @ ''  StaticAsset:  '' @ staticAsset) rest"

text \<open>
  The local \<^verbatim>\<open>linkPage\<close> of the second loop. \<open>render\<close> stands for the recursive call
  \<^verbatim>\<open>link.Page.String()\<close>, which receives a copy of the page the pointer refers to; it
  is \<open>None\<close> when that call does not return.
\<close>

definition linkText :: "(Page \<Rightarrow> string option) \<Rightarrow> Page list \<Rightarrow> Link \<Rightarrow> string option" where
  "linkText render h link =
     (case Page link of
        None \<Rightarrow> Some []
      | Some target \<Rightarrow>
          if CyclicPage link then Some (''\<newline>    Page: '' @ URL (h ! target))
          else map_option indent (render (h ! target)))"

text \<open>The second loop, over \<^verbatim>\<open>p.Links\<close>; \<open>acc\<close> is the local \<^verbatim>\<open>links\<close>.\<close>

fun linksText :: "(Page \<Rightarrow> string option) \<Rightarrow> Page list \<Rightarrow> string \<Rightarrow> Link list \<Rightarrow> string option" where
  "linksText render h acc [] = Some acc"
| "linksText render h acc (link # rest) =
     (case linkText render h link of
        None \<Rightarrow> None
      | Some linkPage \<Rightarrow>
          linksText render h
            ((if 0 < length acc then acc @ ''\<newline>'' else acc) @ ''  Links in current page: '' @ linkPage)
            rest)"

text \<open>The rest of \<^verbatim>\<open>String\<close>: the header line and the two optional blocks.\<close>

definition pageText :: "Page \<Rightarrow> string \<Rightarrow> string \<Rightarrow> string" where
  "pageText p staticAssets links =
     (let pageStr =
            (if Fail p then ''\<newline>Page: '' @ URL p @ '' (Failed to get this URL)\<newline>''
             else ''\<newline>Page: '' @ URL p @ ''\<newline>'');
          pageStr =
            (if 0 < length staticAssets then pageStr @ ''\<newline>'' @ staticAssets @ ''\<newline>''
             else pageStr);
          pageStr =
            (if 0 < length links then pageStr @ ''\<newline>'' @ links @ ''\<newline>''
             else pageStr)
      in pageStr)"

text \<open>
  \<^verbatim>\<open>func (p Page) String() string\<close> over the store \<open>h\<close>. The recursion follows pointers
  and need not end, so it carries fuel: the number of nested calls of \<open>String\<close> allowed.
  \<open>None\<close>: the fuel did not suffice. The method returns exactly when some amount of fuel
  gives \<open>Some\<close>.
\<close>

primrec String :: "nat \<Rightarrow> Page list \<Rightarrow> Page \<Rightarrow> string option" where
  "String 0 h p = None"
| "String (Suc n) h p =
     (case linksText (String n h) h [] (Links p) of
        None \<Rightarrow> None
      | Some links \<Rightarrow> Some (pageText p (assetsText [] (StaticAssets p)) links))"

section \<open>What the specification expects of the static assets\<close>

text \<open>
  Following the specification's words: the \<^verbatim>\<open>href\<close> values of a \<^verbatim>\<open>link\<close> element and
  the \<^verbatim>\<open>src\<close> values of an \<^verbatim>\<open>img\<close> or \<^verbatim>\<open>script\<close> element, verbatim, each element's
  attributes in their order, the elements in document order (a node before its
  children, the children from first to last), nothing removed.
\<close>

definition elementAssets :: "NodeType \<Rightarrow> string \<Rightarrow> Attribute list \<Rightarrow> string list" where
  "elementAssets ty tag attrs =
     (if ty = ElementNode \<and> tag = ''link'' then map Val (filter (\<lambda>a. Key a = ''href'') attrs)
      else if ty = ElementNode \<and> (tag = ''img'' \<or> tag = ''script'') then map Val (filter (\<lambda>a. Key a = ''src'') attrs)
      else [])"

fun documentAssets :: "Node \<Rightarrow> string list"
  and childrenAssets :: "Node list \<Rightarrow> string list" where
  "documentAssets (Node ty tag attrs kids) = elementAssets ty tag attrs @ childrenAssets kids"
| "childrenAssets [] = []"
| "childrenAssets (child # rest) = documentAssets child @ childrenAssets rest"

section \<open>Well-formed stores for rendering\<close>

text \<open>
  \<open>closedStore\<close>: every pointer held by a link points into the store.
  \<open>ranked\<close>: every link that is not flagged \<open>CyclicPage\<close> leads to a page of smaller rank,
  so no cycle consists of unflagged links only (a cycle may pass through flagged ones).
\<close>

definition closedStore :: "Page list \<Rightarrow> bool" where
  "closedStore h \<longleftrightarrow>
     list_all (\<lambda>p. list_all (\<lambda>l. case Page l of None \<Rightarrow> True | Some b \<Rightarrow> b < length h) (Links p)) h"

definition ranked :: "(addr \<Rightarrow> nat) \<Rightarrow> Page list \<Rightarrow> bool" where
  "ranked rank h \<longleftrightarrow>
     list_all (\<lambda>a. list_all (\<lambda>l. case Page l of None \<Rightarrow> True
                                   | Some b \<Rightarrow> CyclicPage l \<or> rank b < rank a) (Links (h ! a)))
       [0..<length h]"

section \<open>Invariants of the crawl\<close>

text \<open>
  \<open>frame page c c'\<close>: what walking a tree for \<open>page\<close> may change. Pages are only added;
  each added page is registered with a goroutine of its own and is not failed; no page
  but \<open>page\<close> is written; \<open>page\<close> keeps its URL and its \<open>Fail\<close> flag.
\<close>

definition frame :: "addr \<Rightarrow> crawler \<Rightarrow> crawler \<Rightarrow> bool" where
  "frame page c c' \<longleftrightarrow>
     domain c' = domain c \<and> sem c' = sem c \<and> fetched c' = fetched c \<and>
     length (heap c) \<le> length (heap c') \<and>
     goroutines c' = goroutines c @ [length (heap c)..<length (heap c')] \<and>
     wg c' = wg c + (length (heap c') - length (heap c)) \<and>
     (\<forall>b<length (heap c). b \<noteq> page \<longrightarrow> heap c' ! b = heap c ! b) \<and>
     URL (heap c' ! page) = URL (heap c ! page) \<and>
     Fail (heap c' ! page) = Fail (heap c ! page) \<and>
     (\<forall>b. length (heap c) \<le> b \<and> b < length (heap c') \<longrightarrow> \<not> Fail (heap c' ! b))"

text \<open>\<open>tasksOk\<close>: no page has two goroutines waiting, and no waiting goroutine's page
  is failed. \<open>ran a c c'\<close>: the two outcomes of \<open>crawlPage\<close> on page \<open>a\<close>.\<close>

definition tasksOk :: "crawler \<Rightarrow> bool" where
  "tasksOk c \<longleftrightarrow>
     distinct (goroutines c) \<and>
     (\<forall>a\<in>set (goroutines c). a < length (heap c) \<and> \<not> Fail (heap c ! a))"

definition ran :: "addr \<Rightarrow> crawler \<Rightarrow> crawler \<Rightarrow> bool" where
  "ran a c c' \<longleftrightarrow>
     (heap c' = (heap c)[a := (heap c ! a)\<lparr>Fail := True\<rparr>] \<and> goroutines c' = goroutines c) \<or>
     (length (heap c) \<le> length (heap c') \<and>
      goroutines c' = goroutines c @ [length (heap c)..<length (heap c')] \<and>
      (\<forall>b<length (heap c). b \<noteq> a \<longrightarrow> heap c' ! b = heap c ! b) \<and>
      Fail (heap c' ! a) = Fail (heap c ! a) \<and>
      (\<forall>b. length (heap c) \<le> b \<and> b < length (heap c') \<longrightarrow> \<not> Fail (heap c' ! b)))"

section \<open>The locked section, two goroutines interleaved\<close>

text \<open>
  Two goroutines reach the locked section of \<^verbatim>\<open>parseHTML\<close> with the same \<^verbatim>\<open>linkURL\<close>, one
  walking the tree of \<open>page1\<close>, the other that of \<open>page2\<close>. Each statement is a step of
  its own, and a schedule says which goroutine moves next (\<open>True\<close>: the second). The
  program counter holds the locals \<^verbatim>\<open>ok\<close> and \<^verbatim>\<open>link\<close> once they are assigned:
  \<^item> \<open>AtLock\<close>: before \<^verbatim>\<open>c.visitedPagesLock.Lock()\<close>; the step does nothing while the mutex
    is held by the other goroutine;
  \<^item> \<open>AtLookup\<close>: before \<^verbatim>\<open>_, ok = c.visitedPages[linkURL]\<close>;
  \<^item> \<open>AtBranch ok\<close>: before the branch taken on \<^verbatim>\<open>ok\<close>;
  \<^item> \<open>AtUnlock link ok\<close>: before \<^verbatim>\<open>c.visitedPagesLock.Unlock()\<close>;
  \<^item> \<open>Returned link ok\<close>: past the section.
  Reads and writes of the map happen in the order of the schedule, which is what Go
  guarantees for accesses ordered by a mutex.
\<close>

datatype pc = AtLock | AtLookup | AtBranch bool | AtUnlock Link bool | Returned Link bool

fun taskStep :: "string \<Rightarrow> addr \<Rightarrow> pc \<Rightarrow> crawler \<Rightarrow> pc \<times> crawler" where
  "taskStep linkURL page AtLock c =
     (if visitedPagesLock c then (AtLock, c) else (AtLookup, c\<lparr>visitedPagesLock := True\<rparr>))"
| "taskStep linkURL page AtLookup c = (AtBranch (visitedPages c linkURL \<noteq> None), c)"
| "taskStep linkURL page (AtBranch True) c = (AtUnlock \<lparr>Page = Some page, CyclicPage = True\<rparr> True, c)"
| "taskStep linkURL page (AtBranch False) c =
     (AtUnlock \<lparr>Page = Some (length (heap c)), CyclicPage = False\<rparr> False,
      c\<lparr>heap := heap c @ [newPage linkURL],
        visitedPages := (visitedPages c)(linkURL \<mapsto> length (heap c))\<rparr>)"
| "taskStep linkURL page (AtUnlock link ok) c = (Returned link ok, c\<lparr>visitedPagesLock := False\<rparr>)"
| "taskStep linkURL page (Returned link ok) c = (Returned link ok, c)"

fun interleave :: "string \<Rightarrow> addr \<Rightarrow> addr \<Rightarrow> bool list \<Rightarrow> pc \<times> pc \<times> crawler \<Rightarrow> pc \<times> pc \<times> crawler" where
  "interleave linkURL page1 page2 [] cfg = cfg"
| "interleave linkURL page1 page2 (second # sched) (p1, p2, c) =
     (if second then
        (case taskStep linkURL page2 p2 c of (p2', c') \<Rightarrow> interleave linkURL page1 page2 sched (p1, p2', c'))
      else
        (case taskStep linkURL page1 p1 c of (p1', c') \<Rightarrow> interleave linkURL page1 page2 sched (p1', p2, c')))"

text \<open>Where a goroutine is, and what it has seen or done: inside the locked section;
  past the insertion of a new page; past a lookup that found the URL; about to insert;
  past the section; and the local \<^verbatim>\<open>link\<close> once it is assigned.\<close>

fun inSection :: "pc \<Rightarrow> bool" where
  "inSection AtLookup = True"
| "inSection (AtBranch ok) = True"
| "inSection (AtUnlock link ok) = True"
| "inSection p = False"

fun created :: "pc \<Rightarrow> bool" where
  "created (AtUnlock link ok) = (\<not> ok)"
| "created (Returned link ok) = (\<not> ok)"
| "created p = False"

fun sawPresent :: "pc \<Rightarrow> bool" where
  "sawPresent (AtBranch ok) = ok"
| "sawPresent (AtUnlock link ok) = ok"
| "sawPresent (Returned link ok) = ok"
| "sawPresent p = False"

fun aboutToCreate :: "pc \<Rightarrow> bool" where
  "aboutToCreate (AtBranch ok) = (\<not> ok)"
| "aboutToCreate p = False"

fun linkOf :: "pc \<Rightarrow> Link option" where
  "linkOf (AtUnlock link ok) = Some link"
| "linkOf (Returned link ok) = Some link"
| "linkOf p = None"

fun returned :: "pc \<Rightarrow> bool" where
  "returned (Returned link ok) = True"
| "returned p = False"

text \<open>
  \<open>sectionInv u c0\<close> relates the two program counters to the crawler, \<open>c0\<close> being the
  crawler on arrival: the mutex is held exactly while one goroutine is inside the
  section; at most one goroutine has inserted; a goroutine that found the URL did so
  after the other inserted it; the store and the map are those of \<open>c0\<close> until the
  insertion and hold the one new page after it; the link of the goroutine that
  inserted points to the new page; no other field changes.
\<close>

definition sectionInv :: "string \<Rightarrow> crawler \<Rightarrow> pc \<times> pc \<times> crawler \<Rightarrow> bool" where
  "sectionInv u c0 cfg = (case cfg of (p1, p2, c) \<Rightarrow>
     (inSection p1 \<or> inSection p2 \<longrightarrow> visitedPagesLock c) \<and>
     (visitedPagesLock c \<longrightarrow> inSection p1 \<or> inSection p2) \<and>
     \<not> (inSection p1 \<and> inSection p2) \<and>
     \<not> (created p1 \<and> created p2) \<and>
     (sawPresent p1 \<longrightarrow> created p2) \<and>
     (sawPresent p2 \<longrightarrow> created p1) \<and>
     (aboutToCreate p1 \<longrightarrow> \<not> created p2) \<and>
     (aboutToCreate p2 \<longrightarrow> \<not> created p1) \<and>
     (created p1 \<or> created p2 \<longrightarrow>
        heap c = heap c0 @ [newPage u] \<and>
        visitedPages c = (visitedPages c0)(u \<mapsto> length (heap c0))) \<and>
     (\<not> created p1 \<and> \<not> created p2 \<longrightarrow> heap c = heap c0 \<and> visitedPages c = visitedPages c0) \<and>
     (created p1 \<longrightarrow> linkOf p1 = Some \<lparr>Page = Some (length (heap c0)), CyclicPage = False\<rparr>) \<and>
     (created p2 \<longrightarrow> linkOf p2 = Some \<lparr>Page = Some (length (heap c0)), CyclicPage = False\<rparr>) \<and>
     domain c = domain c0 \<and> wg c = wg c0 \<and> sem c = sem c0 \<and>
     goroutines c = goroutines c0 \<and> fetched c = fetched c0)"

section \<open>Example inputs\<close>

text \<open>The document of the repository's test (\<^verbatim>\<open>TestCrawler\<close>), as \<^verbatim>\<open>html.Parse\<close>
  returns it, without the white-space text nodes.\<close>

definition exampleDoc :: Node where
  "exampleDoc =
     Node DocumentNode [] []
       [Node ElementNode ''html'' []
          [Node ElementNode ''head'' []
             [Node ElementNode ''link''
                [\<lparr>Key = ''rel'', Val = ''stylesheet''\<rparr>, \<lparr>Key = ''type'', Val = ''text/css''\<rparr>,
                 \<lparr>Key = ''href'', Val = ''example.css''\<rparr>] []],
           Node ElementNode ''body'' []
             [Node ElementNode ''a'' [\<lparr>Key = ''href'', Val = ''example.com/test''\<rparr>]
                [Node TextNode ''Example'' [] []],
              Node ElementNode ''img''
                [\<lparr>Key = ''src'', Val = ''example.png''\<rparr>, \<lparr>Key = ''alt'', Val = ''example''\<rparr>] [],
              Node ElementNode ''script''
                [\<lparr>Key = ''type'', Val = ''text/javascript''\<rparr>, \<lparr>Key = ''src'', Val = ''example.js''\<rparr>] []]]]"

text \<open>What \<^verbatim>\<open>html.Parse\<close> returns on empty content.\<close>

definition emptyDoc :: Node where
  "emptyDoc =
     Node DocumentNode [] []
       [Node ElementNode ''html'' [] [Node ElementNode ''head'' [] [], Node ElementNode ''body'' [] []]]"

text \<open>A site of two pages: \<^verbatim>\<open>example.com\<close> serves the test's document, and
  \<^verbatim>\<open>example.com/test\<close> serves empty content.\<close>

definition exampleFetch :: Fetcher where
  "exampleFetch n u =
     (if u = ''example.com'' then Some ''root''
      else if u = ''example.com/test'' then Some []
      else None)"

definition exampleParse :: Parser where
  "exampleParse content = (if content = ''root'' then Some exampleDoc else Some emptyDoc)"

text \<open>A page with two anchors and an image, and a fetcher whose second call fails.\<close>

definition twoLinksDoc :: Node where
  "twoLinksDoc =
     Node DocumentNode [] []
       [Node ElementNode ''a'' [\<lparr>Key = ''href'', Val = ''/x''\<rparr>] [],
        Node ElementNode ''a'' [\<lparr>Key = ''href'', Val = ''/y''\<rparr>] [],
        Node ElementNode ''img'' [\<lparr>Key = ''src'', Val = ''logo.png''\<rparr>] []]"

definition flakyFetch :: Fetcher where
  "flakyFetch n u = (if n = 1 then None else Some ''page'')"

definition flakyParse :: Parser where
  "flakyParse content = Some twoLinksDoc"

text \<open>A page with an unflagged link to itself, and a store of two pages that link to
  each other, the link back flagged.\<close>

definition selfLinked :: "Page list" where
  "selfLinked = [\<lparr>URL = ''a'', Fail = False, Links = [\<lparr>Page = Some 0, CyclicPage = False\<rparr>], StaticAssets = []\<rparr>]"

definition backEdge :: "Page list" where
  "backEdge =
     [\<lparr>URL = ''a'', Fail = False,
       Links = [\<lparr>Page = Some 1, CyclicPage = False\<rparr>, \<lparr>Page = Some 0, CyclicPage = True\<rparr>],
       StaticAssets = [''a.css'']\<rparr>,
      \<lparr>URL = ''a/b'', Fail = True, Links = [\<lparr>Page = Some 0, CyclicPage = True\<rparr>, \<lparr>Page = None, CyclicPage = False\<rparr>],
       StaticAssets = []\<rparr>]"

text \<open>A crawler in the middle of a crawl: three pages registered, the tasks of pages 1
  and 2 walking their trees, the mutex free.\<close>

definition raceStart :: crawler where
  "raceStart =
     \<lparr>domain = ''example.com'', wg = 2,
      visitedPages = [''example.com'' \<mapsto> 0, ''example.com/a'' \<mapsto> 1, ''example.com/b'' \<mapsto> 2],
      visitedPagesLock = False,
      heap = [newPage ''example.com'', newPage ''example.com/a'', newPage ''example.com/b''],
      sem = 254, goroutines = [], fetched = [(0, ''example.com'')]\<rparr>"

section \<open>What parseHTML changes\<close>

lemma assetLoop_fields [simp]:
  "domain (assetLoop k c page attrs) = domain c"
  "wg (assetLoop k c page attrs) = wg c"
  "visitedPages (assetLoop k c page attrs) = visitedPages c"
  "visitedPagesLock (assetLoop k c page attrs) = visitedPagesLock c"
  "goroutines (assetLoop k c page attrs) = goroutines c"
  "fetched (assetLoop k c page attrs) = fetched c"
  "sem (assetLoop k c page attrs) = sem c"
  by (induction attrs arbitrary: c) (simp_all add: appendAsset_def)

lemma assetLoop_heap:
  "heap (assetLoop k c page attrs) =
     (heap c)[page := (heap c ! page)\<lparr>StaticAssets :=
        StaticAssets (heap c ! page) @ map Val (filter (\<lambda>a. Key a = k) attrs)\<rparr>]"
proof (induction attrs arbitrary: c)
  case Nil
  show ?case by simp
next
  case (Cons attr rest)
  show ?case
  proof (cases "page < length (heap c)")
    case True
    then show ?thesis by (simp add: Cons.IH appendAsset_def)
  next
    case False
    then show ?thesis by (simp add: Cons.IH appendAsset_def list_update_beyond not_less)
  qed
qed

lemma frame_refl: "frame page c c"
  by (auto simp: frame_def)

lemma frame_trans:
  assumes "page < length (heap c)" "frame page c c1" "frame page c1 c2"
  shows "frame page c c2"
proof -
  have le1: "length (heap c) \<le> length (heap c1)" and le2: "length (heap c1) \<le> length (heap c2)"
    using assms by (simp_all add: frame_def)
  have upt: "[length (heap c)..<length (heap c1)] @ [length (heap c1)..<length (heap c2)]
      = [length (heap c)..<length (heap c2)]"
    using le1 le2 by (metis le_Suc_ex upt_add_eq_append)
  have g: "goroutines c2 = goroutines c @ [length (heap c)..<length (heap c2)]"
    using assms upt by (simp add: frame_def)
  have old: "\<forall>b<length (heap c). b \<noteq> page \<longrightarrow> heap c2 ! b = heap c ! b"
    using assms le1 by (simp add: frame_def)
  have new: "\<forall>b. length (heap c) \<le> b \<and> b < length (heap c2) \<longrightarrow> \<not> Fail (heap c2 ! b)"
  proof (intro allI impI)
    fix b assume b: "length (heap c) \<le> b \<and> b < length (heap c2)"
    show "\<not> Fail (heap c2 ! b)"
    proof (cases "b < length (heap c1)")
      case True
      then have "b \<noteq> page" using b assms(1) by simp
      then have "heap c2 ! b = heap c1 ! b" using True assms(3) by (simp add: frame_def)
      moreover have "\<not> Fail (heap c1 ! b)" using True b assms(2) by (simp add: frame_def)
      ultimately show ?thesis by simp
    next
      case False
      then show ?thesis using b assms(3) by (simp add: frame_def)
    qed
  qed
  show ?thesis
    unfolding frame_def
    using assms(2,3) le1 le2 g old new by (simp add: frame_def)
qed

lemma frame_length: "frame page c c' \<Longrightarrow> page < length (heap c) \<Longrightarrow> page < length (heap c')"
  by (simp add: frame_def)

lemma frame_assetLoop: "frame page c (assetLoop k c page attrs)"
  by (cases "page < length (heap c)") (auto simp: frame_def assetLoop_heap list_update_beyond not_less)

lemma registerLink_registered:
  "visitedPages c u = Some a \<Longrightarrow> registerLink c page u = c"
  by (simp add: registerLink_def lookupOrCreate_def)

lemma registerLink_fresh:
  "visitedPages c u = None \<Longrightarrow>
   registerLink c page u =
     c\<lparr>heap := (heap c @ [newPage u])
                [page := ((heap c @ [newPage u]) ! page)\<lparr>Links :=
                   Links ((heap c @ [newPage u]) ! page) @
                   [\<lparr>Page = Some (length (heap c)), CyclicPage = False\<rparr>]\<rparr>],
       visitedPages := (visitedPages c)(u \<mapsto> length (heap c)),
       wg := wg c + 1,
       goroutines := goroutines c @ [length (heap c)]\<rparr>"
  by (simp add: registerLink_def lookupOrCreate_def appendLink_def Let_def)

lemma frame_registerLink:
  "page < length (heap c) \<Longrightarrow> frame page c (registerLink c page u)"
proof (cases "visitedPages c u")
  case None
  assume "page < length (heap c)"
  then show ?thesis
    by (auto simp: registerLink_fresh [OF None] frame_def newPage_def nth_append less_Suc_eq)
next
  case (Some a)
  then show ?thesis by (simp add: registerLink_registered frame_refl)
qed

lemma frame_anchorLoop:
  "page < length (heap c) \<Longrightarrow> frame page c (anchorLoop c page attrs)"
  by (induction attrs) (simp_all add: frame_refl frame_registerLink Let_def)

lemma frame_classify:
  "page < length (heap c) \<Longrightarrow> frame page c (classify c ty tag attrs page)"
  by (simp add: classify_def frame_refl frame_assetLoop frame_anchorLoop)

lemma frame_parseHTML:
  "page < length (heap c) \<Longrightarrow> frame page c (parseHTML c n page)"
  "page < length (heap c) \<Longrightarrow> frame page c (parseChildren c ns page)"
proof (induction c n page and c ns page rule: parseHTML_parseChildren.induct)
  case (1 c ty tag attrs kids page)
  have f1: "frame page c (classify c ty tag attrs page)"
    using "1.prems" by (rule frame_classify)
  then have "page < length (heap (classify c ty tag attrs page))"
    using "1.prems" by (simp add: frame_def)
  then have "frame page (classify c ty tag attrs page) (parseChildren (classify c ty tag attrs page) kids page)"
    by (rule "1.IH")
  with f1 show ?case using "1.prems" by (simp add: frame_trans)
next
  case (2 c page)
  show ?case by (simp add: frame_refl)
next
  case (3 c child rest page)
  have f1: "frame page c (parseHTML c child page)"
    using "3.prems" by (rule "3.IH"(1))
  then have "page < length (heap (parseHTML c child page))"
    using "3.prems" by (simp add: frame_def)
  then have "frame page (parseHTML c child page) (parseChildren (parseHTML c child page) rest page)"
    by (rule "3.IH"(2))
  with f1 show ?case using "3.prems" by (simp add: frame_trans)
qed

section \<open>Static assets\<close>

lemma assets_registerLink:
  "page < length (heap c) \<Longrightarrow>
   StaticAssets (heap (registerLink c page u) ! page) = StaticAssets (heap c ! page)"
  by (cases "visitedPages c u") (simp_all add: registerLink_fresh registerLink_registered nth_append)

lemma assets_anchorLoop:
  "page < length (heap c) \<Longrightarrow>
   StaticAssets (heap (anchorLoop c page attrs) ! page) = StaticAssets (heap c ! page)"
  by (induction attrs) (simp_all add: assets_registerLink Let_def)

lemma assets_classify:
  "page < length (heap c) \<Longrightarrow>
   StaticAssets (heap (classify c ty tag attrs page) ! page) =
     StaticAssets (heap c ! page) @ elementAssets ty tag attrs"
  by (simp add: classify_def elementAssets_def assets_anchorLoop assetLoop_heap)

lemma assets_parseHTML:
  "page < length (heap c) \<Longrightarrow>
     StaticAssets (heap (parseHTML c n page) ! page) = StaticAssets (heap c ! page) @ documentAssets n"
  "page < length (heap c) \<Longrightarrow>
     StaticAssets (heap (parseChildren c ns page) ! page) = StaticAssets (heap c ! page) @ childrenAssets ns"
proof (induction c n page and c ns page rule: parseHTML_parseChildren.induct)
  case (1 c ty tag attrs kids page)
  have "page < length (heap (classify c ty tag attrs page))"
    using "1.prems" frame_classify frame_length by blast
  then show ?case using "1.prems" by (simp add: "1.IH" assets_classify)
next
  case (2 c page)
  show ?case by simp
next
  case (3 c child rest page)
  have "page < length (heap (parseHTML c child page))"
    using "3.prems" frame_parseHTML(1) frame_length by blast
  then show ?case using "3.prems" by (simp add: "3.IH")
qed

text \<open>
  C7. Walking a page's tree appends to the page's \<open>StaticAssets\<close> exactly the \<^verbatim>\<open>href\<close>
  values of the \<^verbatim>\<open>link\<close> elements (a stylesheet link is one) and the \<^verbatim>\<open>src\<close> values of
  the \<^verbatim>\<open>img\<close> and \<^verbatim>\<open>script\<close> elements, verbatim, in document order, with every
  duplicate kept: the new list is the old one followed by \<open>documentAssets\<close>.
\<close>

theorem static_assets_document_order:
  "page < length (heap c) \<Longrightarrow>
   StaticAssets (heap (parseHTML c root page) ! page) = StaticAssets (heap c ! page) @ documentAssets root"
  by (rule assets_parseHTML(1))

theorem static_assets_document_order_witness:
  "0 < length (heap (initCrawler ''example.com'')) \<and>
   StaticAssets (heap (parseHTML (initCrawler ''example.com'')
       (Node ElementNode ''body'' []
          [Node ElementNode ''img'' [\<lparr>Key = ''src'', Val = '' a.png ''\<rparr>] [],
           Node ElementNode ''link'' [\<lparr>Key = ''rel'', Val = ''stylesheet''\<rparr>, \<lparr>Key = ''href'', Val = ''s.css''\<rparr>]
             [Node ElementNode ''script'' [\<lparr>Key = ''src'', Val = ''s.js''\<rparr>] []],
           Node ElementNode ''img'' [\<lparr>Key = ''src'', Val = '' a.png ''\<rparr>] []]) 0) ! 0)
     = ['' a.png '', ''s.css'', ''s.js'', '' a.png '']"
  using static_assets_document_order [of 0 "initCrawler ''example.com''"
      "Node ElementNode ''body'' []
          [Node ElementNode ''img'' [\<lparr>Key = ''src'', Val = '' a.png ''\<rparr>] [],
           Node ElementNode ''link'' [\<lparr>Key = ''rel'', Val = ''stylesheet''\<rparr>, \<lparr>Key = ''href'', Val = ''s.css''\<rparr>]
             [Node ElementNode ''script'' [\<lparr>Key = ''src'', Val = ''s.js''\<rparr>] []],
           Node ElementNode ''img'' [\<lparr>Key = ''src'', Val = '' a.png ''\<rparr>] []]"]
  by (simp add: initCrawler_def newPage_def elementAssets_def)

text \<open>
  C10. A \<^verbatim>\<open>link\<close> element contributes the value of each of its \<^verbatim>\<open>href\<close> attributes,
  whatever its other attributes are (\<^verbatim>\<open>rel\<close> is not looked at), and an \<^verbatim>\<open>img\<close> or
  \<^verbatim>\<open>script\<close> element the value of each of its \<^verbatim>\<open>src\<close> attributes: one entry per
  attribute.
\<close>

theorem every_link_element_is_an_asset:
  assumes "page < length (heap c)"
  shows "StaticAssets (heap (classify c ElementNode ''link'' attrs page) ! page) =
           StaticAssets (heap c ! page) @ map Val (filter (\<lambda>a. Key a = ''href'') attrs) \<and>
         StaticAssets (heap (classify c ElementNode ''img'' attrs page) ! page) =
           StaticAssets (heap c ! page) @ map Val (filter (\<lambda>a. Key a = ''src'') attrs) \<and>
         StaticAssets (heap (classify c ElementNode ''script'' attrs page) ! page) =
           StaticAssets (heap c ! page) @ map Val (filter (\<lambda>a. Key a = ''src'') attrs)"
  using assms by (simp add: classify_def assetLoop_heap)

theorem every_link_element_is_an_asset_witness:
  "StaticAssets (heap (classify (initCrawler ''example.com'') ElementNode ''link''
       [\<lparr>Key = ''rel'', Val = ''icon''\<rparr>, \<lparr>Key = ''href'', Val = ''a.ico''\<rparr>,
        \<lparr>Key = ''href'', Val = ''b.ico''\<rparr>] 0) ! 0) = [''a.ico'', ''b.ico''] \<and>
   StaticAssets (heap (classify (initCrawler ''example.com'') ElementNode ''img''
       [\<lparr>Key = ''rel'', Val = ''icon''\<rparr>, \<lparr>Key = ''href'', Val = ''a.ico''\<rparr>,
        \<lparr>Key = ''href'', Val = ''b.ico''\<rparr>] 0) ! 0) = []"
proof -
  have 1: "0 < length (heap (initCrawler ''example.com''))"
    by (simp add: initCrawler_def)
  show ?thesis
    using every_link_element_is_an_asset [OF 1,
        of "[\<lparr>Key = ''rel'', Val = ''icon''\<rparr>, \<lparr>Key = ''href'', Val = ''a.ico''\<rparr>,
             \<lparr>Key = ''href'', Val = ''b.ico''\<rparr>]"]
    by (simp add: initCrawler_def newPage_def)
qed

section \<open>Trimming\<close>

lemma frontSpace_zero: "frontSpace s = 0 \<longleftrightarrow> (\<forall>w\<in>set whiteSpace. \<not> HasPrefix s w)"
proof
  assume "frontSpace s = 0"
  show "\<forall>w\<in>set whiteSpace. \<not> HasPrefix s w"
  proof (cases "find (\<lambda>w. HasPrefix s w) whiteSpace")
    case None
    then show ?thesis by (simp add: find_None_iff)
  next
    case (Some w)
    then have "w \<in> set whiteSpace" by (auto simp: find_Some_iff)
    then have "w \<noteq> []" by (auto simp: whiteSpace_def)
    then show ?thesis using \<open>frontSpace s = 0\<close> Some by (simp add: frontSpace_def)
  qed
next
  assume "\<forall>w\<in>set whiteSpace. \<not> HasPrefix s w"
  then have "find (\<lambda>w. HasPrefix s w) whiteSpace = None" by (simp add: find_None_iff)
  then show "frontSpace s = 0" by (simp add: frontSpace_def)
qed

lemma backSpace_zero: "backSpace s = 0 \<longleftrightarrow> (\<forall>w\<in>set whiteSpace. \<not> HasSuffix s w)"
proof
  assume "backSpace s = 0"
  show "\<forall>w\<in>set whiteSpace. \<not> HasSuffix s w"
  proof (cases "find (\<lambda>w. HasSuffix s w) whiteSpace")
    case None
    then show ?thesis by (simp add: find_None_iff)
  next
    case (Some w)
    then have "w \<in> set whiteSpace" by (auto simp: find_Some_iff)
    then have "w \<noteq> []" by (auto simp: whiteSpace_def)
    then show ?thesis using \<open>backSpace s = 0\<close> Some by (simp add: backSpace_def)
  qed
next
  assume "\<forall>w\<in>set whiteSpace. \<not> HasSuffix s w"
  then have "find (\<lambda>w. HasSuffix s w) whiteSpace = None" by (simp add: find_None_iff)
  then show "backSpace s = 0" by (simp add: backSpace_def)
qed

lemma frontSpace_pos:
  assumes "frontSpace s \<noteq> 0"
  obtains w where "w \<in> set whiteSpace" "w \<noteq> []" "frontSpace s = length w" "s = w @ drop (frontSpace s) s"
proof (cases "find (\<lambda>w. HasPrefix s w) whiteSpace")
  case None
  then show ?thesis using assms by (simp add: frontSpace_def)
next
  case (Some w)
  then have w: "w \<in> set whiteSpace" "HasPrefix s w" by (auto simp: find_Some_iff)
  have "w \<noteq> []" using w(1) by (auto simp: whiteSpace_def)
  moreover have "frontSpace s = length w" using Some by (simp add: frontSpace_def)
  moreover have "s = w @ drop (length w) s"
    using w(2) by (metis HasPrefix_def append_take_drop_id)
  ultimately show ?thesis using that w(1) by simp
qed

lemma backSpace_pos:
  assumes "backSpace s \<noteq> 0"
  obtains w where "w \<in> set whiteSpace" "w \<noteq> []" "backSpace s = length w" "length w \<le> length s"
    "s = take (length s - backSpace s) s @ w"
proof (cases "find (\<lambda>w. HasSuffix s w) whiteSpace")
  case None
  then show ?thesis using assms by (simp add: backSpace_def)
next
  case (Some w)
  then have w: "w \<in> set whiteSpace" "HasSuffix s w" by (auto simp: find_Some_iff)
  have "w \<noteq> []" using w(1) by (auto simp: whiteSpace_def)
  moreover have "backSpace s = length w" using Some by (simp add: backSpace_def)
  moreover have "length w \<le> length s" using w(2) by (simp add: HasSuffix_def)
  moreover have "s = take (length s - length w) s @ w"
    using w(2) by (metis HasSuffix_def append_take_drop_id)
  ultimately show ?thesis using that w(1) by simp
qed

lemma onlySpace_Nil: "onlySpace []"
  unfolding onlySpace_def by (rule exI [of _ "[]"]) simp

lemma onlySpace_front: "w \<in> set whiteSpace \<Longrightarrow> onlySpace s \<Longrightarrow> onlySpace (w @ s)"
  unfolding onlySpace_def
proof -
  assume w: "w \<in> set whiteSpace" and "\<exists>ws. set ws \<subseteq> set whiteSpace \<and> s = concat ws"
  then obtain ws where "set ws \<subseteq> set whiteSpace" "s = concat ws" by blast
  then have "set (w # ws) \<subseteq> set whiteSpace \<and> w @ s = concat (w # ws)" using w by simp
  then show "\<exists>ws. set ws \<subseteq> set whiteSpace \<and> w @ s = concat ws" by blast
qed

lemma onlySpace_back: "w \<in> set whiteSpace \<Longrightarrow> onlySpace s \<Longrightarrow> onlySpace (s @ w)"
  unfolding onlySpace_def
proof -
  assume w: "w \<in> set whiteSpace" and "\<exists>ws. set ws \<subseteq> set whiteSpace \<and> s = concat ws"
  then obtain ws where "set ws \<subseteq> set whiteSpace" "s = concat ws" by blast
  then have "set (ws @ [w]) \<subseteq> set whiteSpace \<and> s @ w = concat (ws @ [w])" using w by simp
  then show "\<exists>ws. set ws \<subseteq> set whiteSpace \<and> s @ w = concat ws" by blast
qed

lemma trimLeftRounds_split: "\<exists>lead. s = lead @ trimLeftRounds n s \<and> onlySpace lead"
proof (induction n arbitrary: s)
  case 0
  show ?case using onlySpace_Nil by auto
next
  case (Suc n)
  show ?case
  proof (cases "frontSpace s = 0")
    case True
    then show ?thesis using onlySpace_Nil by auto
  next
    case False
    then obtain w where w: "w \<in> set whiteSpace" "s = w @ drop (frontSpace s) s"
      by (rule frontSpace_pos)
    obtain lead where lead: "drop (frontSpace s) s = lead @ trimLeftRounds n (drop (frontSpace s) s)"
      "onlySpace lead" using Suc.IH by blast
    have "s = (w @ lead) @ trimLeftRounds (Suc n) s"
      using False w(2) lead(1) by simp
    moreover have "onlySpace (w @ lead)" using w(1) lead(2) by (rule onlySpace_front)
    ultimately show ?thesis by blast
  qed
qed

lemma trimLeftRounds_done: "length s \<le> n \<Longrightarrow> frontSpace (trimLeftRounds n s) = 0"
proof (induction n arbitrary: s)
  case 0
  then have "s = []" by simp
  then show ?case by (simp add: frontSpace_zero HasPrefix_def whiteSpace_def)
next
  case (Suc n)
  show ?case
  proof (cases "frontSpace s = 0")
    case True
    then show ?thesis by simp
  next
    case False
    then obtain w where w: "w \<noteq> []" "frontSpace s = length w" "s = w @ drop (frontSpace s) s"
      by (rule frontSpace_pos)
    have "length s = length w + length (drop (frontSpace s) s)"
      using w(3) by (metis length_append)
    moreover obtain k where "length w = Suc k" using w(1) by (cases w) auto
    ultimately have "length (drop (frontSpace s) s) \<le> n" using w(2) Suc.prems by simp
    then show ?thesis using False by (simp add: Suc.IH)
  qed
qed

lemma trimRightRounds_split: "\<exists>trail. s = trimRightRounds n s @ trail \<and> onlySpace trail"
proof (induction n arbitrary: s)
  case 0
  show ?case using onlySpace_Nil by auto
next
  case (Suc n)
  show ?case
  proof (cases "backSpace s = 0")
    case True
    then show ?thesis using onlySpace_Nil by auto
  next
    case False
    then obtain w where w: "w \<in> set whiteSpace" "s = take (length s - backSpace s) s @ w"
      by (rule backSpace_pos)
    obtain trail where trail: "take (length s - backSpace s) s
        = trimRightRounds n (take (length s - backSpace s) s) @ trail"
      "onlySpace trail" using Suc.IH by blast
    have "s = trimRightRounds (Suc n) s @ (trail @ w)"
      using False w(2) trail(1) by simp (metis append.assoc)
    moreover have "onlySpace (trail @ w)" using w(1) trail(2) by (rule onlySpace_back)
    ultimately show ?thesis by blast
  qed
qed

lemma trimRightRounds_done: "length s \<le> n \<Longrightarrow> backSpace (trimRightRounds n s) = 0"
proof (induction n arbitrary: s)
  case 0
  then have "s = []" by simp
  then show ?case by (simp add: backSpace_zero HasSuffix_def whiteSpace_def)
next
  case (Suc n)
  show ?case
  proof (cases "backSpace s = 0")
    case True
    then show ?thesis by simp
  next
    case False
    then obtain w where w: "w \<in> set whiteSpace" "w \<noteq> []" "backSpace s = length w"
      "length w \<le> length s" "s = take (length s - backSpace s) s @ w"
      by (rule backSpace_pos)
    obtain k where "length w = Suc k" using w(2) by (cases w) auto
    then have "length (take (length s - backSpace s) s) \<le> n" using w(3,4) Suc.prems by simp
    then show ?thesis using False by (simp add: Suc.IH)
  qed
qed

lemma HasPrefix_append: "HasPrefix xs w \<Longrightarrow> HasPrefix (xs @ ys) w"
  by (simp add: HasPrefix_def)

lemma TrimSpace_split:
  "\<exists>lead trail. s = lead @ TrimSpace s @ trail \<and> onlySpace lead \<and> onlySpace trail"
proof -
  obtain lead where 1: "s = lead @ trimLeft s" "onlySpace lead"
    using trimLeftRounds_split [of s "length s"] by (auto simp: trimLeft_def)
  obtain trail where 2: "trimLeft s = TrimSpace s @ trail" "onlySpace trail"
    using trimRightRounds_split [of "trimLeft s" "length (trimLeft s)"]
    by (auto simp: TrimSpace_def trimRight_def)
  have "s = lead @ TrimSpace s @ trail" using 1(1) 2(1) by simp
  then show ?thesis using 1(2) 2(2) by blast
qed

lemma TrimSpace_trimmed:
  "\<forall>w\<in>set whiteSpace. \<not> HasPrefix (TrimSpace s) w \<and> \<not> HasSuffix (TrimSpace s) w"
proof -
  obtain trail where 2: "trimLeft s = TrimSpace s @ trail"
    using trimRightRounds_split [of "trimLeft s" "length (trimLeft s)"]
    by (auto simp: TrimSpace_def trimRight_def)
  have "frontSpace (trimLeft s) = 0" by (simp add: trimLeft_def trimLeftRounds_done)
  then have "\<forall>w\<in>set whiteSpace. \<not> HasPrefix (TrimSpace s @ trail) w"
    using 2 by (simp add: frontSpace_zero)
  then have front: "\<forall>w\<in>set whiteSpace. \<not> HasPrefix (TrimSpace s) w"
    using HasPrefix_append by blast
  have "backSpace (TrimSpace s) = 0" by (simp add: TrimSpace_def trimRight_def trimRightRounds_done)
  then have "\<forall>w\<in>set whiteSpace. \<not> HasSuffix (TrimSpace s) w" by (simp add: backSpace_zero)
  with front show ?thesis by blast
qed

section \<open>Anchors\<close>

lemma anchorLoop_skip:
  "\<forall>a\<in>set pre. Key a \<noteq> ''href'' \<Longrightarrow> anchorLoop c page (pre @ rest) = anchorLoop c page rest"
  by (induction pre) simp_all

text \<open>
  C6. Of an anchor element only the first \<^verbatim>\<open>href\<close> attribute counts (the attributes
  before it have other keys, those after it are never read). Its value is trimmed: the
  trimmed value is the value without a leading and a trailing run of white-space runes,
  and neither starts nor ends with a white-space rune. A trimmed value that starts with
  \<^verbatim>\<open>/\<close> is appended to the domain root; and when the result does not start with the
  domain root, the crawler is left as it was: no link appended, nothing registered, no
  goroutine started.
\<close>

theorem anchor_first_href:
  assumes "\<forall>a\<in>set pre. Key a \<noteq> ''href''" and "Key attr = ''href''"
  shows "classify c ElementNode ''a'' (pre @ attr # post) page =
           (let trimmed = TrimSpace (Val attr);
                linkURL = (if HasPrefix trimmed ''/'' then domain c @ trimmed else trimmed)
            in if HasPrefix linkURL (domain c) then registerLink c page linkURL else c) \<and>
         (\<exists>lead trail. Val attr = lead @ TrimSpace (Val attr) @ trail \<and>
            onlySpace lead \<and> onlySpace trail) \<and>
         (\<forall>w\<in>set whiteSpace.
            \<not> HasPrefix (TrimSpace (Val attr)) w \<and> \<not> HasSuffix (TrimSpace (Val attr)) w)"
proof -
  have "classify c ElementNode ''a'' (pre @ attr # post) page =
           (let trimmed = TrimSpace (Val attr);
                linkURL = (if HasPrefix trimmed ''/'' then domain c @ trimmed else trimmed)
            in if HasPrefix linkURL (domain c) then registerLink c page linkURL else c)"
    using assms by (simp add: classify_def anchorLoop_skip Let_def)
  then show ?thesis
    using TrimSpace_split [of "Val attr"] TrimSpace_trimmed [of "Val attr"] by blast
qed

text \<open>The witness: an \<^verbatim>\<open>href\<close> padded with U+00A0 in front and with U+2003 and a space
  behind, after a \<^verbatim>\<open>class\<close> attribute and before a second \<^verbatim>\<open>href\<close>; and an \<^verbatim>\<open>href\<close> to
  another site.\<close>

theorem anchor_first_href_witness:
  "TrimSpace ([CHR 0xC2, CHR 0xA0] @ ''/about'' @ [CHR 0xE2, CHR 0x80, CHR 0x83] @ '' '') = ''/about'' \<and>
   classify (initCrawler ''example.com'') ElementNode ''a''
     ([\<lparr>Key = ''class'', Val = ''nav''\<rparr>] @
      \<lparr>Key = ''href'', Val = [CHR 0xC2, CHR 0xA0] @ ''/about'' @ [CHR 0xE2, CHR 0x80, CHR 0x83] @ '' ''\<rparr> #
      [\<lparr>Key = ''href'', Val = ''/other''\<rparr>]) 0
     = registerLink (initCrawler ''example.com'') 0 ''example.com/about'' \<and>
   classify (initCrawler ''example.com'') ElementNode ''a''
     ([] @ \<lparr>Key = ''href'', Val = ''http://other.org/''\<rparr> # [\<lparr>Key = ''href'', Val = ''/other''\<rparr>]) 0
     = initCrawler ''example.com''"
proof -
  have t: "TrimSpace ([CHR 0xC2, CHR 0xA0] @ ''/about'' @ [CHR 0xE2, CHR 0x80, CHR 0x83] @ '' '') = ''/about''"
    by (simp add: TrimSpace_def trimLeft_def trimRight_def frontSpace_def backSpace_def
        whiteSpace_def HasPrefix_def HasSuffix_def)
  have t2: "TrimSpace ''http://other.org/'' = ''http://other.org/''"
    by (simp add: TrimSpace_def trimLeft_def trimRight_def frontSpace_def backSpace_def
        whiteSpace_def HasPrefix_def HasSuffix_def)
  show ?thesis
    using anchor_first_href [of "[\<lparr>Key = ''class'', Val = ''nav''\<rparr>]"
        "\<lparr>Key = ''href'', Val = [CHR 0xC2, CHR 0xA0] @ ''/about'' @ [CHR 0xE2, CHR 0x80, CHR 0x83] @ '' ''\<rparr>"
        "initCrawler ''example.com''" "[\<lparr>Key = ''href'', Val = ''/other''\<rparr>]" 0]
      anchor_first_href [of "[]" "\<lparr>Key = ''href'', Val = ''http://other.org/''\<rparr>"
        "initCrawler ''example.com''" "[\<lparr>Key = ''href'', Val = ''/other''\<rparr>]" 0]
      t t2
    by (simp add: HasPrefix_def initCrawler_def)
qed

text \<open>
  C2. An anchor whose resolved URL is registered already: here the seed page links to
  itself. The locked section builds the link with \<open>CyclicPage\<close> set, but the append stands
  under \<^verbatim>\<open>if !ok\<close>, so the page's \<open>Links\<close> stay empty (and no goroutine is started).
\<close>

theorem registered_anchor_appends_no_link:
  "visitedPages (initCrawler ''example.com'') ''example.com'' = Some 0 \<and>
   lookupOrCreate (initCrawler ''example.com'') 0 ''example.com''
     = (\<lparr>Page = Some 0, CyclicPage = True\<rparr>, True, initCrawler ''example.com'') \<and>
   Links (heap (parseHTML (initCrawler ''example.com'')
       (Node ElementNode ''a'' [\<lparr>Key = ''href'', Val = ''example.com''\<rparr>] []) 0) ! 0) = [] \<and>
   goroutines (parseHTML (initCrawler ''example.com'')
       (Node ElementNode ''a'' [\<lparr>Key = ''href'', Val = ''example.com''\<rparr>] []) 0) = [0]"
  by (simp add: initCrawler_def classify_def registerLink_def lookupOrCreate_def newPage_def
      TrimSpace_def trimLeft_def trimRight_def frontSpace_def backSpace_def whiteSpace_def HasSuffix_def HasPrefix_def Let_def)

text \<open>
  C8. An anchor without an \<^verbatim>\<open>href\<close> attribute: the attribute loop ends without reaching
  the append, and the page's \<open>Links\<close> stay empty.
\<close>

theorem anchor_without_href_appends_no_link:
  "Links (heap (parseHTML (initCrawler ''example.com'')
       (Node ElementNode ''a'' [\<lparr>Key = ''name'', Val = ''top''\<rparr>] []) 0) ! 0) = [] \<and>
   Links (heap (parseHTML (initCrawler ''example.com'') (Node ElementNode ''a'' [] []) 0) ! 0) = []"
  by (simp add: initCrawler_def classify_def newPage_def Let_def)

section \<open>The crawl\<close>

lemma crawlPage_ran:
  assumes "a < length (heap c)"
  shows "ran a c (crawlPage fetch parse c a)"
proof -
  define c2 where "c2 = c\<lparr>sem := sem c - 1, fetched := fetched c @ [(a, domain c)]\<rparr>"
  have c2: "heap c2 = heap c" "goroutines c2 = goroutines c" "domain c2 = domain c"
    by (simp_all add: c2_def)
  show ?thesis
  proof (cases "fetch (length (fetched c)) (domain c)")
    case None
    then show ?thesis by (simp add: crawlPage_def ran_def setFail_def)
  next
    case (Some r)
    show ?thesis
    proof (cases "parse r")
      case None
      with Some show ?thesis by (simp add: crawlPage_def ran_def setFail_def)
    next
      case (Some root)
      have "frame a c2 (parseHTML c2 root a)"
        using assms c2 by (simp add: frame_parseHTML)
      then have "ran a c (parseHTML c2 root a)"
        using c2 by (simp add: frame_def ran_def)
      moreover have "crawlPage fetch parse c a =
          (parseHTML c2 root a)\<lparr>sem := sem (parseHTML c2 root a) + 1, wg := wg (parseHTML c2 root a) - 1\<rparr>"
        using \<open>fetch (length (fetched c)) (domain c) = Some r\<close> Some by (simp add: crawlPage_def c2_def Let_def)
      ultimately show ?thesis by (simp add: ran_def)
    qed
  qed
qed

lemma step_idle: "goroutines c = [] \<or> sem c = 0 \<Longrightarrow> step fetch parse i c = c"
  by (auto simp: step_def)

lemma step_runs:
  assumes "goroutines c \<noteq> []" "sem c \<noteq> 0"
  shows "step fetch parse i c =
     crawlPage fetch parse
       (c\<lparr>goroutines := take (i mod length (goroutines c)) (goroutines c) @
            drop (Suc (i mod length (goroutines c))) (goroutines c)\<rparr>)
       (goroutines c ! (i mod length (goroutines c)))"
  using assms by (simp add: step_def Let_def)

lemma runTasks_idle: "goroutines c = [] \<Longrightarrow> runTasks fetch parse sched c = c"
  by (induction sched) (simp_all add: step_idle)

lemma set_remove_nth:
  assumes "distinct xs" "k < length xs"
  shows "set (take k xs @ drop (Suc k) xs) = set xs - {xs ! k}"
    and "distinct (take k xs @ drop (Suc k) xs)"
proof -
  have xs: "xs = take k xs @ xs ! k # drop (Suc k) xs"
    using assms(2) by (simp add: id_take_nth_drop)
  have d: "distinct (take k xs @ xs ! k # drop (Suc k) xs)"
    using assms(1) xs by simp
  show "distinct (take k xs @ drop (Suc k) xs)" using d by simp
  have "set xs = set (take k xs @ xs ! k # drop (Suc k) xs)" using xs by simp
  then show "set (take k xs @ drop (Suc k) xs) = set xs - {xs ! k}" using d by auto
qed

lemma ran_tasksOk:
  assumes ok: "distinct (goroutines c0)"
      "\<forall>b\<in>set (goroutines c0). b < length (heap c0) \<and> \<not> Fail (heap c0 ! b)"
    and a: "a \<notin> set (goroutines c0)" "a < length (heap c0)"
    and r: "ran a c0 c'"
  shows "tasksOk c'"
  using r unfolding ran_def
proof (elim disjE conjE)
  assume h: "heap c' = (heap c0)[a := (heap c0 ! a)\<lparr>Fail := True\<rparr>]" and g: "goroutines c' = goroutines c0"
  show ?thesis
    unfolding tasksOk_def using ok a h g by (auto simp: nth_list_update)
next
  assume le: "length (heap c0) \<le> length (heap c')"
    and g: "goroutines c' = goroutines c0 @ [length (heap c0)..<length (heap c')]"
    and old: "\<forall>b<length (heap c0). b \<noteq> a \<longrightarrow> heap c' ! b = heap c0 ! b"
    and new: "\<forall>b. length (heap c0) \<le> b \<and> b < length (heap c') \<longrightarrow> \<not> Fail (heap c' ! b)"
  have d: "distinct (goroutines c')"
    using ok g by auto
  have "\<forall>b\<in>set (goroutines c'). b < length (heap c') \<and> \<not> Fail (heap c' ! b)"
  proof
    fix b assume "b \<in> set (goroutines c')"
    then consider "b \<in> set (goroutines c0)" | "length (heap c0) \<le> b" "b < length (heap c')"
      using g by auto
    then show "b < length (heap c') \<and> \<not> Fail (heap c' ! b)"
    proof cases
      case 1
      then have "b < length (heap c0)" "\<not> Fail (heap c0 ! b)" "b \<noteq> a" using ok a by auto
      then show ?thesis using old le by simp
    next
      case 2
      then show ?thesis using new by simp
    qed
  qed
  with d show ?thesis by (simp add: tasksOk_def)
qed

lemma step_tasksOk:
  assumes "tasksOk c"
  shows "tasksOk (step fetch parse i c)"
proof (cases "goroutines c = [] \<or> sem c = 0")
  case True
  then show ?thesis using assms by (simp add: step_idle)
next
  case False
  define k where "k = i mod length (goroutines c)"
  define a where "a = goroutines c ! k"
  define c0 where "c0 = c\<lparr>goroutines := take k (goroutines c) @ drop (Suc k) (goroutines c)\<rparr>"
  have k: "k < length (goroutines c)" using False by (simp add: k_def)
  have d: "distinct (goroutines c)" using assms by (simp add: tasksOk_def)
  have st: "step fetch parse i c = crawlPage fetch parse c0 a"
    using False by (simp add: step_runs k_def a_def c0_def)
  have a_in: "a \<in> set (goroutines c)" using k by (simp add: a_def)
  have a_lt: "a < length (heap c0)" using assms a_in by (simp add: tasksOk_def c0_def)
  have g0: "set (goroutines c0) = set (goroutines c) - {a}" "distinct (goroutines c0)"
    using set_remove_nth [OF d k] by (simp_all add: c0_def a_def)
  have "\<forall>b\<in>set (goroutines c0). b < length (heap c0) \<and> \<not> Fail (heap c0 ! b)"
    using assms g0 by (simp add: tasksOk_def c0_def)
  moreover have "a \<notin> set (goroutines c0)" using g0 by simp
  moreover have "ran a c0 (crawlPage fetch parse c0 a)" using a_lt by (rule crawlPage_ran)
  ultimately show ?thesis using g0(2) a_lt st by (simp add: ran_tasksOk)
qed

lemma tasksOk_init: "tasksOk (initCrawler url)"
  by (simp add: tasksOk_def initCrawler_def newPage_def)

lemma runTasks_tasksOk: "tasksOk c \<Longrightarrow> tasksOk (runTasks fetch parse sched c)"
  by (induction sched arbitrary: c) (simp_all add: step_tasksOk)

lemma step_effect:
  assumes "tasksOk c" "b < length (heap c)"
  shows "length (heap c) \<le> length (heap (step fetch parse i c))"
    and "Fail (heap c ! b) \<Longrightarrow> heap (step fetch parse i c) ! b = heap c ! b"
    and "Fail (heap (step fetch parse i c) ! b) \<Longrightarrow>
          Links (heap (step fetch parse i c) ! b) = Links (heap c ! b) \<and>
          StaticAssets (heap (step fetch parse i c) ! b) = StaticAssets (heap c ! b)"
proof -
  have "length (heap c) \<le> length (heap (step fetch parse i c)) \<and>
        (Fail (heap c ! b) \<longrightarrow> heap (step fetch parse i c) ! b = heap c ! b) \<and>
        (Fail (heap (step fetch parse i c) ! b) \<longrightarrow>
          Links (heap (step fetch parse i c) ! b) = Links (heap c ! b) \<and>
          StaticAssets (heap (step fetch parse i c) ! b) = StaticAssets (heap c ! b))"
  proof (cases "goroutines c = [] \<or> sem c = 0")
    case True
    then show ?thesis by (simp add: step_idle)
  next
    case False
    define k where "k = i mod length (goroutines c)"
    define a where "a = goroutines c ! k"
    define c0 where "c0 = c\<lparr>goroutines := take k (goroutines c) @ drop (Suc k) (goroutines c)\<rparr>"
    have k: "k < length (goroutines c)" using False by (simp add: k_def)
    have st: "step fetch parse i c = crawlPage fetch parse c0 a"
      using False by (simp add: step_runs k_def a_def c0_def)
    have a_in: "a \<in> set (goroutines c)" using k by (simp add: a_def)
    have a_lt: "a < length (heap c0)" and a_ok: "\<not> Fail (heap c0 ! a)"
      using assms(1) a_in by (simp_all add: tasksOk_def c0_def)
    have h0: "heap c0 = heap c" by (simp add: c0_def)
    have "ran a c0 (step fetch parse i c)"
      using crawlPage_ran [OF a_lt, of fetch parse] st by simp
    then show ?thesis
      unfolding ran_def h0
    proof (elim disjE conjE)
      assume h: "heap (step fetch parse i c) = (heap c)[a := (heap c ! a)\<lparr>Fail := True\<rparr>]"
      show ?thesis
        using a_ok h0 assms(2) by (cases "b = a") (simp_all add: h)
    next
      assume le: "length (heap c) \<le> length (heap (step fetch parse i c))"
        and old: "\<forall>b<length (heap c). b \<noteq> a \<longrightarrow> heap (step fetch parse i c) ! b = heap c ! b"
        and same: "Fail (heap (step fetch parse i c) ! a) = Fail (heap c ! a)"
      show ?thesis
        using a_ok h0 assms(2) le old same by (cases "b = a") simp_all
    qed
  qed
  then show "length (heap c) \<le> length (heap (step fetch parse i c))"
    and "Fail (heap c ! b) \<Longrightarrow> heap (step fetch parse i c) ! b = heap c ! b"
    and "Fail (heap (step fetch parse i c) ! b) \<Longrightarrow>
          Links (heap (step fetch parse i c) ! b) = Links (heap c ! b) \<and>
          StaticAssets (heap (step fetch parse i c) ! b) = StaticAssets (heap c ! b)"
    by simp_all
qed

lemma runTasks_failed_kept:
  "tasksOk c \<Longrightarrow> b < length (heap c) \<Longrightarrow> Fail (heap c ! b) \<Longrightarrow>
   heap (runTasks fetch parse sched c) ! b = heap c ! b"
proof (induction sched arbitrary: c)
  case Nil
  show ?case by simp
next
  case (Cons i sched)
  have 1: "tasksOk (step fetch parse i c)" using Cons.prems(1) by (rule step_tasksOk)
  have 2: "b < length (heap (step fetch parse i c))"
    using step_effect(1) [OF Cons.prems(1,2), of fetch parse i] Cons.prems(2) by simp
  have 3: "heap (step fetch parse i c) ! b = heap c ! b"
    using Cons.prems by (simp add: step_effect(2))
  have "heap (runTasks fetch parse sched (step fetch parse i c)) ! b = heap (step fetch parse i c) ! b"
    using 1 2 3 Cons.prems(3) by (simp add: Cons.IH)
  with 3 show ?case by simp
qed

text \<open>Every run of \<open>crawlPage\<close> passes the crawler's domain to the fetcher, whatever
  the page.\<close>

lemma crawlPage_fetched:
  assumes "page < length (heap c)"
  shows "fetched (crawlPage fetch parse c page) = fetched c @ [(page, domain c)]"
proof -
  have "fetched (parseHTML c2 root page) = fetched c2" if "heap c2 = heap c" for c2 root
    using frame_parseHTML(1) [of page c2 root] assms that by (simp add: frame_def)
  then show ?thesis
    by (simp add: crawlPage_def setFail_def Let_def split: option.split)
qed

text \<open>
  C1. The crawl of the two-page site: the task of page 1, whose URL is
  \<^verbatim>\<open>example.com/test\<close>, calls \<^verbatim>\<open>Fetch\<close> with the domain \<^verbatim>\<open>example.com\<close>, and so the page
  ends with the root's assets although its own content is empty.
\<close>

theorem crawlPage_fetches_the_domain:
  "fetched (runTasks exampleFetch exampleParse [0, 0] (initCrawler ''example.com''))
     = [(0, ''example.com''), (1, ''example.com'')] \<and>
   Crawl exampleFetch exampleParse [0, 0] ''example.com'' =
     Some ([\<lparr>URL = ''example.com'', Fail = False,
              Links = [\<lparr>Page = Some 1, CyclicPage = False\<rparr>],
              StaticAssets = [''example.css'', ''example.png'', ''example.js'']\<rparr>,
            \<lparr>URL = ''example.com/test'', Fail = False, Links = [],
              StaticAssets = [''example.css'', ''example.png'', ''example.js'']\<rparr>], 0)"
  by (simp add: Crawl_def exampleFetch_def exampleParse_def exampleDoc_def initCrawler_def
      step_def crawlPage_def classify_def registerLink_def lookupOrCreate_def appendLink_def
      appendAsset_def newPage_def HasPrefix_def TrimSpace_def trimLeft_def trimRight_def frontSpace_def backSpace_def whiteSpace_def HasSuffix_def maxOutstanding_def
      Let_def)

text \<open>
  C5. When the first call of the fetcher, the one for the seed, fails, \<open>Crawl\<close> returns
  (under every schedule that lets the one goroutine run) a page with the seed URL, \<open>Fail\<close>
  set, and no links and no static assets.
\<close>

theorem Crawl_seed_fetch_fails:
  assumes "fetch 0 url = None"
  shows "Crawl fetch parse (i # sched) url =
           Some ([\<lparr>URL = url, Fail = True, Links = [], StaticAssets = []\<rparr>], 0)"
proof -
  have "step fetch parse i (initCrawler url) =
      \<lparr>domain = url, wg = 0, visitedPages = [url \<mapsto> 0], visitedPagesLock = False,
       heap = [\<lparr>URL = url, Fail = True, Links = [], StaticAssets = []\<rparr>],
       sem = maxOutstanding, goroutines = [], fetched = [(0, url)]\<rparr>"
    using assms
    by (simp add: step_def initCrawler_def crawlPage_def setFail_def newPage_def maxOutstanding_def)
  then show ?thesis
    by (simp add: Crawl_def runTasks_idle)
qed

theorem Crawl_seed_fetch_fails_witness:
  "(\<lambda>n u. None :: string option) 0 ''example.com'' = None \<and>
   Crawl (\<lambda>n u. None) exampleParse [0] ''example.com'' =
     Some ([\<lparr>URL = ''example.com'', Fail = True, Links = [], StaticAssets = []\<rparr>], 0)"
  using Crawl_seed_fetch_fails [of "\<lambda>n u. None" "''example.com''" exampleParse 0 "[]"]
  by simp

text \<open>
  C9. In every state the crawl reaches, a step that leaves a page failed has appended
  nothing to that page's \<open>Links\<close> and \<open>StaticAssets\<close> (this covers the step that sets
  \<open>Fail\<close>), and a page that is failed is never written again, whatever runs later.
\<close>

theorem failed_page_never_appended:
  assumes "c = runTasks fetch parse sched (initCrawler url)" and "b < length (heap c)"
  shows "(Fail (heap (step fetch parse i c) ! b) \<longrightarrow>
            Links (heap (step fetch parse i c) ! b) = Links (heap c ! b) \<and>
            StaticAssets (heap (step fetch parse i c) ! b) = StaticAssets (heap c ! b)) \<and>
         (Fail (heap c ! b) \<longrightarrow> heap (runTasks fetch parse later c) ! b = heap c ! b)"
proof -
  have ok: "tasksOk c"
    using assms(1) by (simp add: runTasks_tasksOk tasksOk_init)
  show ?thesis
    using step_effect(3) [OF ok assms(2)] runTasks_failed_kept [OF ok assms(2)] by blast
qed

theorem failed_page_never_appended_witness:
  "1 < length (heap (runTasks flakyFetch flakyParse [0] (initCrawler ''s''))) \<and>
   Fail (heap (step flakyFetch flakyParse 0 (runTasks flakyFetch flakyParse [0] (initCrawler ''s''))) ! 1) \<and>
   Links (heap (step flakyFetch flakyParse 0 (runTasks flakyFetch flakyParse [0] (initCrawler ''s''))) ! 1)
     = Links (heap (runTasks flakyFetch flakyParse [0] (initCrawler ''s'')) ! 1) \<and>
   1 < length (heap (runTasks flakyFetch flakyParse [0, 0] (initCrawler ''s''))) \<and>
   Fail (heap (runTasks flakyFetch flakyParse [0, 0] (initCrawler ''s'')) ! 1) \<and>
   heap (runTasks flakyFetch flakyParse [0] (runTasks flakyFetch flakyParse [0, 0] (initCrawler ''s''))) ! 1
     = heap (runTasks flakyFetch flakyParse [0, 0] (initCrawler ''s'')) ! 1 \<and>
   StaticAssets (heap (runTasks flakyFetch flakyParse [0] (runTasks flakyFetch flakyParse [0, 0] (initCrawler ''s''))) ! 2)
     = [''logo.png'']"
proof -
  have 1: "1 < length (heap (runTasks flakyFetch flakyParse [0] (initCrawler ''s'')))"
    by (simp add: flakyFetch_def flakyParse_def twoLinksDoc_def initCrawler_def
      step_def crawlPage_def classify_def registerLink_def lookupOrCreate_def appendLink_def
      appendAsset_def newPage_def HasPrefix_def TrimSpace_def trimLeft_def trimRight_def frontSpace_def backSpace_def whiteSpace_def HasSuffix_def maxOutstanding_def
      Let_def)
  have 2: "1 < length (heap (runTasks flakyFetch flakyParse [0, 0] (initCrawler ''s'')))"
    by (simp add: flakyFetch_def flakyParse_def twoLinksDoc_def initCrawler_def
      step_def crawlPage_def classify_def registerLink_def lookupOrCreate_def appendLink_def
      appendAsset_def newPage_def HasPrefix_def TrimSpace_def trimLeft_def trimRight_def frontSpace_def backSpace_def whiteSpace_def HasSuffix_def maxOutstanding_def
      setFail_def Let_def)
  have 3: "Fail (heap (runTasks flakyFetch flakyParse [0, 0] (initCrawler ''s'')) ! 1)"
    by (simp add: flakyFetch_def flakyParse_def twoLinksDoc_def initCrawler_def
      step_def crawlPage_def classify_def registerLink_def lookupOrCreate_def appendLink_def
      appendAsset_def newPage_def HasPrefix_def TrimSpace_def trimLeft_def trimRight_def frontSpace_def backSpace_def whiteSpace_def HasSuffix_def maxOutstanding_def
      setFail_def Let_def)
  have 4: "StaticAssets (heap (runTasks flakyFetch flakyParse [0]
      (runTasks flakyFetch flakyParse [0, 0] (initCrawler ''s''))) ! 2) = [''logo.png'']"
    by (simp add: flakyFetch_def flakyParse_def twoLinksDoc_def initCrawler_def
      step_def crawlPage_def classify_def registerLink_def lookupOrCreate_def appendLink_def
      appendAsset_def newPage_def HasPrefix_def TrimSpace_def trimLeft_def trimRight_def frontSpace_def backSpace_def whiteSpace_def HasSuffix_def maxOutstanding_def
      setFail_def Let_def)
  have 5: "Fail (heap (step flakyFetch flakyParse 0 (runTasks flakyFetch flakyParse [0] (initCrawler ''s''))) ! 1)"
    using 3 by simp
  show ?thesis
    using 1 2 3 4 5
      failed_page_never_appended [OF refl 1, of 0 "[]"]
      failed_page_never_appended [OF refl 2, of 0 "[0]"]
    by blast
qed

section \<open>The race for one URL\<close>

lemma sectionInv_sym: "sectionInv u c0 (p1, p2, c) \<Longrightarrow> sectionInv u c0 (p2, p1, c)"
  unfolding sectionInv_def by simp blast

lemma sectionInv_AtLock:
  "sectionInv u c0 (AtLock, p2, c) \<Longrightarrow>
   sectionInv u c0 (fst (taskStep u page AtLock c), p2, snd (taskStep u page AtLock c))"
  by (cases p2) (auto simp: sectionInv_def)

lemma sectionInv_AtLookup:
  "visitedPages c0 u = None \<Longrightarrow> sectionInv u c0 (AtLookup, p2, c) \<Longrightarrow>
   sectionInv u c0 (fst (taskStep u page AtLookup c), p2, snd (taskStep u page AtLookup c))"
  by (cases p2) (auto simp: sectionInv_def)

lemma sectionInv_AtBranch:
  "sectionInv u c0 (AtBranch ok, p2, c) \<Longrightarrow>
   sectionInv u c0 (fst (taskStep u page (AtBranch ok) c), p2, snd (taskStep u page (AtBranch ok) c))"
  by (cases p2; cases ok) (auto simp: sectionInv_def)

lemma sectionInv_AtUnlock:
  "sectionInv u c0 (AtUnlock link ok, p2, c) \<Longrightarrow>
   sectionInv u c0 (fst (taskStep u page (AtUnlock link ok) c), p2, snd (taskStep u page (AtUnlock link ok) c))"
  by (cases p2; cases ok) (auto simp: sectionInv_def)


lemma sectionInv_first:
  assumes "visitedPages c0 u = None" and "sectionInv u c0 (p1, p2, c)"
  shows "sectionInv u c0 (fst (taskStep u page p1 c), p2, snd (taskStep u page p1 c))"
proof (cases p1)
  case AtLock
  then show ?thesis using assms(2) sectionInv_AtLock by blast
next
  case AtLookup
  then show ?thesis using assms sectionInv_AtLookup by blast
next
  case (AtBranch ok)
  then show ?thesis using assms(2) sectionInv_AtBranch by blast
next
  case (AtUnlock link ok)
  then show ?thesis using assms(2) sectionInv_AtUnlock by blast
next
  case (Returned link ok)
  then show ?thesis using assms(2) by simp
qed

lemma sectionInv_second:
  assumes "visitedPages c0 u = None" and "sectionInv u c0 (p1, p2, c)"
  shows "sectionInv u c0 (p1, fst (taskStep u page p2 c), snd (taskStep u page p2 c))"
  using sectionInv_first [OF assms(1), of p2 p1 c page] assms(2) sectionInv_sym by blast

lemma sectionInv_interleave:
  assumes "visitedPages c0 u = None"
  shows "sectionInv u c0 (p1, p2, c) \<Longrightarrow> sectionInv u c0 (interleave u page1 page2 sched (p1, p2, c))"
proof (induction sched arbitrary: p1 p2 c)
  case Nil
  then show ?case by simp
next
  case (Cons second sched)
  show ?case
  proof (cases second)
    case True
    obtain p2' c' where st: "taskStep u page2 p2 c = (p2', c')"
      by (cases "taskStep u page2 p2 c")
    have "sectionInv u c0 (p1, p2', c')"
      using sectionInv_second [OF assms Cons.prems, of page2] st by simp
    then show ?thesis using Cons.IH True st by simp
  next
    case False
    obtain p1' c' where st: "taskStep u page1 p1 c = (p1', c')"
      by (cases "taskStep u page1 p1 c")
    have "sectionInv u c0 (p1', p2, c')"
      using sectionInv_first [OF assms Cons.prems, of page1] st by simp
    then show ?thesis using Cons.IH False st by simp
  qed
qed

lemma sectionInv_start:
  "\<not> visitedPagesLock c \<Longrightarrow> sectionInv u c (AtLock, AtLock, c)"
  by (simp add: sectionInv_def)

lemma interleave_append:
  "interleave u page1 page2 (xs @ ys) cfg = interleave u page1 page2 ys (interleave u page1 page2 xs cfg)"
proof (induction xs arbitrary: cfg)
  case Nil
  show ?case by simp
next
  case (Cons x xs)
  obtain p1 p2 c where cfg: "cfg = (p1, p2, c)" by (cases cfg)
  show ?case unfolding cfg by (simp add: Cons.IH split: prod.split)
qed

lemma sectionInv_free:
  "sectionInv u c0 (p1, p2, c) \<Longrightarrow> \<not> inSection p1 \<Longrightarrow> \<not> inSection p2 \<Longrightarrow> \<not> visitedPagesLock c"
  by (simp add: sectionInv_def)

lemma sectionInv_excl:
  "sectionInv u c0 (p1, p2, c) \<Longrightarrow> \<not> (inSection p1 \<and> inSection p2)"
  by (simp add: sectionInv_def)

lemma sectionInv_returned:
  assumes "sectionInv u c0 (Returned link1 ok1, Returned link2 ok2, c)"
  shows "ok1 \<noteq> ok2"
    and "(if ok1 then link2 else link1) = \<lparr>Page = Some (length (heap c0)), CyclicPage = False\<rparr>"
    and "heap c = heap c0 @ [newPage u]"
    and "visitedPages c = (visitedPages c0)(u \<mapsto> length (heap c0))"
    and "\<not> visitedPagesLock c"
    and "domain c = domain c0" "wg c = wg c0" "sem c = sem c0"
      "goroutines c = goroutines c0" "fetched c = fetched c0"
  using assms by (cases ok1; cases ok2; simp add: sectionInv_def)+

lemma first_runs:
  assumes "p1 = AtLock \<longrightarrow> \<not> visitedPagesLock c"
  shows "\<exists>q1 c'. interleave u page1 page2 [False, False, False, False] (p1, p2, c) = (q1, p2, c') \<and> returned q1"
proof (cases p1)
  case AtLock
  then show ?thesis using assms by (cases "visitedPages c u") simp_all
next
  case AtLookup
  then show ?thesis by (cases "visitedPages c u") simp_all
next
  case (AtBranch ok)
  then show ?thesis by (cases ok) simp_all
next
  case (AtUnlock link ok)
  then show ?thesis by simp
next
  case (Returned link ok)
  then show ?thesis by simp
qed

lemma second_runs:
  assumes "p2 = AtLock \<longrightarrow> \<not> visitedPagesLock c"
  shows "\<exists>q2 c'. interleave u page1 page2 [True, True, True, True] (p1, p2, c) = (p1, q2, c') \<and> returned q2"
proof (cases p2)
  case AtLock
  then show ?thesis using assms by (cases "visitedPages c u") simp_all
next
  case AtLookup
  then show ?thesis by (cases "visitedPages c u") simp_all
next
  case (AtBranch ok)
  then show ?thesis by (cases ok) simp_all
next
  case (AtUnlock link ok)
  then show ?thesis by simp
next
  case (Returned link ok)
  then show ?thesis by simp
qed

lemma first_waits:
  "visitedPagesLock c \<Longrightarrow>
   interleave u page1 page2 [False, False, False, False] (AtLock, p2, c) = (AtLock, p2, c)"
  by simp

lemma returned_out: "returned p \<or> p = AtLock \<Longrightarrow> \<not> inSection p"
  by (cases p) auto

lemma both_return:
  assumes fresh: "visitedPages c0 u = None" and inv: "sectionInv u c0 (p1, p2, c)"
  shows "\<exists>q1 q2 c'.
     interleave u page1 page2
       [False, False, False, False, True, True, True, True, False, False, False, False] (p1, p2, c)
       = (q1, q2, c') \<and> returned q1 \<and> returned q2"
proof -
  have "\<exists>q1 c1. interleave u page1 page2 [False, False, False, False] (p1, p2, c) = (q1, p2, c1) \<and>
      (returned q1 \<or> q1 = AtLock)"
  proof (cases "p1 = AtLock \<and> visitedPagesLock c")
    case True
    then show ?thesis using first_waits [of c u page1 page2 p2] by blast
  next
    case False
    then show ?thesis using first_runs [of p1 c u page1 page2 p2] by blast
  qed
  then obtain q1 c1 where s1: "interleave u page1 page2 [False, False, False, False] (p1, p2, c) = (q1, p2, c1)"
    and q1: "returned q1 \<or> q1 = AtLock" by blast
  have inv1: "sectionInv u c0 (q1, p2, c1)"
    using sectionInv_interleave [OF fresh inv, of page1 page2 "[False, False, False, False]"] s1
    by (simp only:)
  have out1: "\<not> inSection q1" using q1 by (rule returned_out)
  have "p2 = AtLock \<longrightarrow> \<not> visitedPagesLock c1"
  proof
    assume "p2 = AtLock"
    then have "\<not> inSection p2" by simp
    with inv1 out1 show "\<not> visitedPagesLock c1" by (rule sectionInv_free)
  qed
  then obtain q2 c2 where s2: "interleave u page1 page2 [True, True, True, True] (q1, p2, c1) = (q1, q2, c2)"
    and q2: "returned q2" using second_runs [of p2 c1 u page1 page2 q1] by blast
  have inv2: "sectionInv u c0 (q1, q2, c2)"
    using sectionInv_interleave [OF fresh inv1, of page1 page2 "[True, True, True, True]"] s2
    by (simp only:)
  have out2: "\<not> inSection q2" using q2 returned_out by blast
  have "\<not> visitedPagesLock c2" using inv2 out1 out2 by (rule sectionInv_free)
  then obtain r1 c3 where s3: "interleave u page1 page2 [False, False, False, False] (q1, q2, c2) = (r1, q2, c3)"
    and r1: "returned r1" using first_runs [of q1 c2 u page1 page2 q2] by blast
  have "interleave u page1 page2
       ([False, False, False, False] @ [True, True, True, True] @ [False, False, False, False]) (p1, p2, c)
       = (r1, q2, c3)"
    by (simp only: interleave_append s1 s2 s3)
  then have "interleave u page1 page2
       [False, False, False, False, True, True, True, True, False, False, False, False] (p1, p2, c)
       = (r1, q2, c3)"
    by (simp only: append.simps)
  then show ?thesis using r1 q2 by blast
qed

lemma locked_section_alone:
  "\<not> visitedPagesLock c \<Longrightarrow>
   interleave u page page2 [False, False, False, False] (AtLock, p2, c) =
     (case lookupOrCreate c page u of (link, ok, c') \<Rightarrow> (Returned link ok, p2, c'))"
  by (cases "visitedPages c u") (simp_all add: lookupOrCreate_def Let_def)

text \<open>
  C3, as stated, fails when the URL is registered before the two goroutines arrive
  (two pages that both link back to the seed): both see \<^verbatim>\<open>ok = true\<close>, none creates a
  page, and each takes its own referring page as \<open>link.Page\<close>.
\<close>

theorem concurrent_register_both_present:
  "interleave ''example.com'' 1 2 [False, True, False, True, False, False, True, True, True, True]
     (AtLock, AtLock, raceStart) =
     (Returned \<lparr>Page = Some 1, CyclicPage = True\<rparr> True,
      Returned \<lparr>Page = Some 2, CyclicPage = True\<rparr> True, raceStart)"
  by (simp add: raceStart_def)

text \<open>
  C3, amended. When the URL is not registered and the mutex is free as the two goroutines
  arrive, then under every schedule: they are never both inside the locked section;
  once both are past it, exactly one has seen \<^verbatim>\<open>ok = false\<close> and the other
  \<^verbatim>\<open>ok = true\<close>, the crawler differs from the one on arrival by exactly one new page,
  appended to the store and registered under the URL, and the link of the goroutine
  that saw \<^verbatim>\<open>ok = false\<close> points to that page; and the schedule can always be continued
  so that both get past the section (four turns for the first, four for the second,
  four for the first again).
\<close>

theorem concurrent_register_one_creates:
  assumes "visitedPages c linkURL = None" and "\<not> visitedPagesLock c"
    and "interleave linkURL page1 page2 sched (AtLock, AtLock, c) = (p1, p2, c')"
  shows "\<not> (inSection p1 \<and> inSection p2) \<and>
         (\<forall>link1 ok1 link2 ok2. p1 = Returned link1 ok1 \<and> p2 = Returned link2 ok2 \<longrightarrow>
            ok1 \<noteq> ok2 \<and>
            c' = c\<lparr>heap := heap c @ [newPage linkURL],
                   visitedPages := (visitedPages c)(linkURL \<mapsto> length (heap c))\<rparr> \<and>
            (if ok1 then link2 else link1) = \<lparr>Page = Some (length (heap c)), CyclicPage = False\<rparr>) \<and>
         (\<exists>link1 ok1 link2 ok2 c''.
            interleave linkURL page1 page2
              (sched @ [False, False, False, False, True, True, True, True, False, False, False, False])
              (AtLock, AtLock, c)
            = (Returned link1 ok1, Returned link2 ok2, c''))"
proof -
  have inv: "sectionInv linkURL c (p1, p2, c')"
    using sectionInv_interleave [OF assms(1) sectionInv_start [OF assms(2)], of page1 page2 sched]
      assms(3) by (simp only:)
  have excl: "\<not> (inSection p1 \<and> inSection p2)" using inv by (rule sectionInv_excl)
  have outcome: "ok1 \<noteq> ok2 \<and>
      c' = c\<lparr>heap := heap c @ [newPage linkURL],
             visitedPages := (visitedPages c)(linkURL \<mapsto> length (heap c))\<rparr> \<and>
      (if ok1 then link2 else link1) = \<lparr>Page = Some (length (heap c)), CyclicPage = False\<rparr>"
    if "p1 = Returned link1 ok1 \<and> p2 = Returned link2 ok2" for link1 ok1 link2 ok2
  proof -
    have i: "sectionInv linkURL c (Returned link1 ok1, Returned link2 ok2, c')"
      using inv that by simp
    note f = sectionInv_returned [OF i]
    have "c' = c\<lparr>heap := heap c @ [newPage linkURL],
             visitedPages := (visitedPages c)(linkURL \<mapsto> length (heap c))\<rparr>"
      using f(3-10) assms(2) by (intro crawler.equality) simp_all
    with f(1,2) show ?thesis by blast
  qed
  obtain q1 q2 c'' where fin: "interleave linkURL page1 page2
       [False, False, False, False, True, True, True, True, False, False, False, False] (p1, p2, c')
       = (q1, q2, c'')" "returned q1" "returned q2"
    using both_return [OF assms(1) inv, of page1 page2] by blast
  obtain link1 ok1 where q1: "q1 = Returned link1 ok1" using fin(2) by (cases q1) auto
  obtain link2 ok2 where q2: "q2 = Returned link2 ok2" using fin(3) by (cases q2) auto
  have "interleave linkURL page1 page2
      (sched @ [False, False, False, False, True, True, True, True, False, False, False, False])
      (AtLock, AtLock, c) = (Returned link1 ok1, Returned link2 ok2, c'')"
    using fin(1) assms(3) q1 q2 by (simp only: interleave_append)
  then have fin': "\<exists>link1 ok1 link2 ok2 c''.
            interleave linkURL page1 page2
              (sched @ [False, False, False, False, True, True, True, True, False, False, False, False])
              (AtLock, AtLock, c)
            = (Returned link1 ok1, Returned link2 ok2, c'')" by blast
  show ?thesis
  proof (intro conjI allI impI)
    show "\<not> (inSection p1 \<and> inSection p2)" by (rule excl)
  next
    fix link1 ok1 link2 ok2 assume "p1 = Returned link1 ok1 \<and> p2 = Returned link2 ok2"
    then show "ok1 \<noteq> ok2" using outcome by blast
  next
    fix link1 ok1 link2 ok2 assume "p1 = Returned link1 ok1 \<and> p2 = Returned link2 ok2"
    then show "c' = c\<lparr>heap := heap c @ [newPage linkURL],
             visitedPages := (visitedPages c)(linkURL \<mapsto> length (heap c))\<rparr>" using outcome by blast
  next
    fix link1 ok1 link2 ok2 assume "p1 = Returned link1 ok1 \<and> p2 = Returned link2 ok2"
    then show "(if ok1 then link2 else link1) = \<lparr>Page = Some (length (heap c)), CyclicPage = False\<rparr>"
      using outcome by blast
  next
    show "\<exists>link1 ok1 link2 ok2 c''.
            interleave linkURL page1 page2
              (sched @ [False, False, False, False, True, True, True, True, False, False, False, False])
              (AtLock, AtLock, c)
            = (Returned link1 ok1, Returned link2 ok2, c'')" by (rule fin')
  qed
qed

theorem concurrent_register_one_creates_witness:
  "visitedPages raceStart ''example.com/new'' = None \<and> \<not> visitedPagesLock raceStart \<and>
   fst (interleave ''example.com/new'' 1 2 [False, True, False, True, False, False, True, True, True, True]
      (AtLock, AtLock, raceStart)) = Returned \<lparr>Page = Some 3, CyclicPage = False\<rparr> False \<and>
   (\<exists>link2. fst (snd (interleave ''example.com/new'' 1 2
      [False, True, False, True, False, False, True, True, True, True]
      (AtLock, AtLock, raceStart))) = Returned link2 True) \<and>
   snd (snd (interleave ''example.com/new'' 1 2
      [False, True, False, True, False, False, True, True, True, True]
      (AtLock, AtLock, raceStart)))
     = raceStart\<lparr>heap := heap raceStart @ [newPage ''example.com/new''],
         visitedPages := (visitedPages raceStart)(''example.com/new'' \<mapsto> 3)\<rparr>"
proof -
  define cfg where "cfg = interleave ''example.com/new'' 1 2
      [False, True, False, True, False, False, True, True, True, True] (AtLock, AtLock, raceStart)"
  have 1: "visitedPages raceStart ''example.com/new'' = None" by (simp add: raceStart_def)
  have 2: "\<not> visitedPagesLock raceStart" by (simp add: raceStart_def)
  have 3: "interleave ''example.com/new'' 1 2
      [False, True, False, True, False, False, True, True, True, True] (AtLock, AtLock, raceStart)
      = (fst cfg, fst (snd cfg), snd (snd cfg))"
    by (simp add: cfg_def)
  have 4: "fst cfg = Returned \<lparr>Page = Some 3, CyclicPage = False\<rparr> False"
    by (simp add: cfg_def raceStart_def numeral_3_eq_3)
  have 5: "fst (snd cfg) = Returned \<lparr>Page = Some 2, CyclicPage = True\<rparr> True"
    by (simp add: cfg_def raceStart_def)
  have 6: "length (heap raceStart) = 3" by (simp add: raceStart_def)
  have "snd (snd cfg) = raceStart\<lparr>heap := heap raceStart @ [newPage ''example.com/new''],
         visitedPages := (visitedPages raceStart)(''example.com/new'' \<mapsto> length (heap raceStart))\<rparr>"
    using concurrent_register_one_creates [OF 1 2 3] 4 5 by blast
  then show ?thesis
    using 1 2 4 5 6 by (simp add: cfg_def)
qed

section \<open>Rendering\<close>

lemma linkText_cyclic:
  "CyclicPage l \<Longrightarrow> Page l = Some b \<Longrightarrow>
   linkText render h l = Some (''\<newline>    Page: '' @ URL (h ! b))"
  by (simp add: linkText_def)

lemma linksText_enough:
  assumes "\<And>l. l \<in> set ls \<Longrightarrow> \<exists>n t. \<forall>m\<ge>n. linkText (String m h) h l = Some t"
  shows "\<exists>n s. \<forall>m\<ge>n. linksText (String m h) h acc ls = Some s"
  using assms
proof (induction ls arbitrary: acc)
  case Nil
  show ?case by simp
next
  case (Cons l ls)
  obtain n1 t where 1: "\<forall>m\<ge>n1. linkText (String m h) h l = Some t"
    using Cons.prems by force
  define acc' where "acc' = (if 0 < length acc then acc @ ''\<newline>'' else acc) @ ''  Links in current page: '' @ t"
  obtain n2 s where 2: "\<forall>m\<ge>n2. linksText (String m h) h acc' ls = Some s"
    using Cons.IH [of acc'] Cons.prems by force
  have "\<forall>m\<ge>max n1 n2. linksText (String m h) h acc (l # ls) = Some s"
    using 1 2 by (simp add: acc'_def)
  then show ?case by blast
qed

lemma String_enough:
  assumes "closedStore h" "ranked rank h"
  shows "a < length h \<Longrightarrow> rank a < k \<Longrightarrow> \<exists>n s. \<forall>m\<ge>n. String m h (h ! a) = Some s"
proof (induction k arbitrary: a)
  case 0
  then show ?case by simp
next
  case (Suc k)
  have links: "\<exists>n t. \<forall>m\<ge>n. linkText (String m h) h l = Some t" if l: "l \<in> set (Links (h ! a))" for l
  proof (cases "Page l")
    case None
    then show ?thesis by (simp add: linkText_def)
  next
    case (Some b)
    show ?thesis
    proof (cases "CyclicPage l")
      case True
      then show ?thesis using Some by (simp add: linkText_def)
    next
      case False
      have "h ! a \<in> set h" using Suc.prems(1) by simp
      then have b: "b < length h"
        using assms(1) l Some by (force simp: closedStore_def list_all_iff)
      have "rank b < rank a"
        using assms(2) Suc.prems(1) l Some False by (force simp: ranked_def list_all_iff)
      then have "rank b < k" using Suc.prems(2) by simp
      then obtain n s where "\<forall>m\<ge>n. String m h (h ! b) = Some s"
        using Suc.IH b by blast
      then have "\<forall>m\<ge>n. linkText (String m h) h l = Some (indent s)"
        using Some False by (simp add: linkText_def)
      then show ?thesis by blast
    qed
  qed
  obtain n s where n: "\<forall>m\<ge>n. linksText (String m h) h [] (Links (h ! a)) = Some s"
    using linksText_enough [of "Links (h ! a)" h "[]"] links by blast
  have "\<forall>m\<ge>Suc n. String m h (h ! a) = Some (pageText (h ! a) (assetsText [] (StaticAssets (h ! a))) s)"
  proof (intro allI impI)
    fix m assume "Suc n \<le> m"
    then obtain m' where m: "m = Suc m'" "n \<le> m'" by (cases m) auto
    show "String m h (h ! a) = Some (pageText (h ! a) (assetsText [] (StaticAssets (h ! a))) s)"
      using n m by simp
  qed
  then show ?case by blast
qed

lemma selfLinked_never: "String n selfLinked (selfLinked ! 0) = None"
  by (induction n) (simp_all add: selfLinked_def linkText_def)

text \<open>
  C4, as stated, fails on a page graph whose cycle is not flagged: a page with an
  unflagged link to itself is never rendered, whatever the fuel.
\<close>

theorem String_unflagged_self_link_diverges:
  "\<not> (\<exists>n s. String n selfLinked (selfLinked ! 0) = Some s)"
  by (simp add: selfLinked_never)

text \<open>
  C4, amended. On a store whose unflagged links lead to pages of smaller rank (every cycle
  passes through a link flagged \<open>CyclicPage\<close>), \<open>String\<close> returns for every page: from
  some amount of fuel on the result is the same string. A flagged link to a page is
  rendered as that page's URL only, without any call of \<open>String\<close> on it.
\<close>

theorem String_terminates_when_cycles_are_flagged:
  assumes "closedStore h" and "ranked rank h" and "a < length h"
  shows "(\<exists>n s. \<forall>m\<ge>n. String m h (h ! a) = Some s) \<and>
         (\<forall>l b. CyclicPage l \<and> Page l = Some b \<longrightarrow>
            linkText render h l = Some (''\<newline>    Page: '' @ URL (h ! b)))"
  using String_enough [OF assms(1,2) assms(3), of "Suc (rank a)"] by (simp add: linkText_cyclic)

theorem String_terminates_witness:
  "closedStore backEdge \<and> ranked (\<lambda>a. 1 - a) backEdge \<and> (0::nat) < length backEdge \<and>
   (\<exists>n s. \<forall>m\<ge>n. String m backEdge (backEdge ! 0) = Some s) \<and>
   linkText (\<lambda>p. None) backEdge \<lparr>Page = Some 0, CyclicPage = True\<rparr> = Some ''\<newline>    Page: a''"
proof -
  have 1: "closedStore backEdge" by (simp add: closedStore_def backEdge_def)
  have 2: "ranked (\<lambda>a. 1 - a) backEdge" by (simp add: ranked_def backEdge_def upt_rec)
  have 3: "(0::nat) < length backEdge" by (simp add: backEdge_def)
  show ?thesis
    using String_terminates_when_cycles_are_flagged [OF 1 2 3, of "\<lambda>p. None"] 1 2 3
    by (auto simp: backEdge_def)
qed

end
